theory Spec2Isabelle
  imports Complex_Main "HOL-Library.Sublist"
begin

section \<open>JavaScript values used by the layout engine\<close>

text \<open>
  A JavaScript number is modelled as an exact real extended by the three special values of
  IEEE arithmetic that the layout code can produce through division and through the
  coercion of \<open>undefined\<close>: \<open>NaN\<close> and the two infinities. Rounding, overflow and the sign of
  zero are not modelled; every operation below is the exact one.
\<close>

datatype jsnum = NaN | NegInf | Fin real | PosInf

text \<open>\<open>ToNumber\<close> on a possibly undefined number: \<open>undefined\<close> becomes \<open>NaN\<close>.\<close>

fun toNumber :: "jsnum option \<Rightarrow> jsnum" where
  "toNumber None = NaN"
| "toNumber (Some v) = v"

fun jneg :: "jsnum \<Rightarrow> jsnum" where
  "jneg NaN = NaN"
| "jneg NegInf = PosInf"
| "jneg PosInf = NegInf"
| "jneg (Fin a) = Fin (- a)"

fun jadd :: "jsnum \<Rightarrow> jsnum \<Rightarrow> jsnum" where
  "jadd (Fin a) (Fin b) = Fin (a + b)"
| "jadd NaN _ = NaN"
| "jadd _ NaN = NaN"
| "jadd PosInf NegInf = NaN"
| "jadd NegInf PosInf = NaN"
| "jadd PosInf _ = PosInf"
| "jadd _ PosInf = PosInf"
| "jadd NegInf _ = NegInf"
| "jadd _ NegInf = NegInf"

definition jsub :: "jsnum \<Rightarrow> jsnum \<Rightarrow> jsnum" where
  "jsub a b = jadd a (jneg b)"

text \<open>The sign of a non-NaN number: \<open>-1\<close>, \<open>0\<close> or \<open>1\<close>.\<close>

fun jsign :: "jsnum \<Rightarrow> int" where
  "jsign (Fin a) = (if a < 0 then - 1 else if a = 0 then 0 else 1)"
| "jsign PosInf = 1"
| "jsign NegInf = - 1"
| "jsign NaN = 0"

definition infOfSign :: "int \<Rightarrow> jsnum" where
  "infOfSign s = (if s < 0 then NegInf else PosInf)"

fun jmul :: "jsnum \<Rightarrow> jsnum \<Rightarrow> jsnum" where
  "jmul (Fin a) (Fin b) = Fin (a * b)"
| "jmul NaN _ = NaN"
| "jmul _ NaN = NaN"
| "jmul a b = (if jsign a * jsign b = 0 then NaN else infOfSign (jsign a * jsign b))"

fun jdiv :: "jsnum \<Rightarrow> jsnum \<Rightarrow> jsnum" where
  "jdiv (Fin a) (Fin b) =
     (if b \<noteq> 0 then Fin (a / b) else if a = 0 then NaN else infOfSign (jsign (Fin a)))"
| "jdiv NaN _ = NaN"
| "jdiv _ NaN = NaN"
| "jdiv (Fin a) _ = Fin 0"
| "jdiv a (Fin b) = infOfSign (jsign a * (if b < 0 then - 1 else 1))"
| "jdiv _ _ = NaN"

text \<open>The relational operators: every comparison with \<open>NaN\<close> is false.\<close>

fun jle :: "jsnum \<Rightarrow> jsnum \<Rightarrow> bool" where
  "jle NaN _ = False"
| "jle _ NaN = False"
| "jle NegInf _ = True"
| "jle _ PosInf = True"
| "jle (Fin a) (Fin b) = (a \<le> b)"
| "jle _ _ = False"

fun jlt :: "jsnum \<Rightarrow> jsnum \<Rightarrow> bool" where
  "jlt NaN _ = False"
| "jlt _ NaN = False"
| "jlt (Fin a) (Fin b) = (a < b)"
| "jlt PosInf _ = False"
| "jlt _ NegInf = False"
| "jlt _ _ = True"

definition jge :: "jsnum \<Rightarrow> jsnum \<Rightarrow> bool" where
  "jge a b = jle b a"

definition jgt :: "jsnum \<Rightarrow> jsnum \<Rightarrow> bool" where
  "jgt a b = jlt b a"

text \<open>\<open>Math.max\<close> of two arguments: \<open>NaN\<close> when either is \<open>NaN\<close>.\<close>

fun mathMax :: "jsnum \<Rightarrow> jsnum \<Rightarrow> jsnum" where
  "mathMax NaN _ = NaN"
| "mathMax _ NaN = NaN"
| "mathMax a b = (if jle a b then b else a)"

text \<open>Truthiness of a number in a condition: false for \<open>0\<close> and \<open>NaN\<close>.\<close>

fun truthy :: "jsnum \<Rightarrow> bool" where
  "truthy NaN = False"
| "truthy (Fin a) = (a \<noteq> 0)"
| "truthy _ = True"

definition ofNat :: "nat \<Rightarrow> jsnum" where
  "ofNat n = Fin (real n)"

text \<open>
  Reading an array element: \<open>undefined\<close> (here \<open>None\<close>) outside the array, where HOL's
  \<open>!\<close> would be unspecified.
\<close>

definition lookup :: "'a list \<Rightarrow> nat \<Rightarrow> 'a option" where
  "lookup xs i = (if i < length xs then Some (xs ! i) else None)"

datatype error = TypeError

section \<open>The model tree\<close>

record Dimensions =
  dimX :: jsnum
  dimY :: jsnum
  dimWidth :: jsnum
  dimHeight :: jsnum

text \<open>
  The identity of a node: what the layout reads and never writes. \<open>parentComponent\<close> is a
  reference to an enclosing node; it is kept as the number of levels between the node and
  that ancestor (\<open>0\<close> is the parent), \<open>None\<close> when the property is not set.
\<close>

record info =
  name :: string
  absPathName :: string
  promotedName :: "string option"
  depth :: nat
  isInputOrOutput :: bool
  isFilter :: bool
  parentComponent :: "nat option"

record draw =
  hidden :: bool
  filtered :: bool
  minimized :: bool
  manuallyExpanded :: bool
  numLeaves :: nat
  nameWidthPx :: "jsnum option"
  dims :: Dimensions
  prevDims :: Dimensions

datatype node =
  Node (info: info) (draw: draw) (textOpacity: "jsnum option")
    (prevTextOpacity: "jsnum option") (children: "node list")

record ModelData =
  rootNode :: node
  nodeIds :: "nat list"
  depthCount :: "nat list"
  maxDepth :: nat

text \<open>The draw flags an external method of a node may consult.\<close>

type_synonym flags = "bool \<times> bool \<times> bool \<times> bool"

definition flagsOf :: "draw \<Rightarrow> flags" where
  "flagsOf d = (hidden d, filtered d, minimized d, manuallyExpanded d)"

text \<open>
  What the layout takes from outside this file: the constants \<open>Precollapse.minimumNodes\<close>
  and \<open>N2TransitionDefaults.maxNodes\<close>, the size test of \<open>minimizeIfLarge\<close> (on the node's
  identity, its number of children, its flags and the count of nodes at its depth), the
  node methods \<open>isVisible\<close> and \<open>isVisibleLeaf\<close> (on the identity, whether the node has
  children, and the flags) and the width the browser reports for a rendered string.
\<close>

record Externals =
  minimumNodes :: nat
  maxNodes :: nat
  largeTest :: "info \<Rightarrow> nat \<Rightarrow> flags \<Rightarrow> nat option \<Rightarrow> bool"
  visibleTest :: "info \<Rightarrow> bool \<Rightarrow> flags \<Rightarrow> bool"
  visibleLeafTest :: "info \<Rightarrow> bool \<Rightarrow> flags \<Rightarrow> bool"
  renderedWidth :: "string \<Rightarrow> jsnum"

definition hasChildren :: "node \<Rightarrow> bool" where
  "hasChildren n = (children n \<noteq> [])"

text \<open>Modelled from the spec: \<open>minimize\<close> force-minimizes the node (its flag is set).\<close>

definition minimize :: "draw \<Rightarrow> draw" where
  "minimize d = d\<lparr>minimized := True\<rparr>"

text \<open>
  Modelled from the spec: \<open>minimizeIfLarge\<close> applies a size-based test to the node and
  minimizes it when the test says so.
\<close>

definition minimizeIfLarge :: "Externals \<Rightarrow> info \<Rightarrow> nat \<Rightarrow> draw \<Rightarrow> nat option \<Rightarrow> draw" where
  "minimizeIfLarge E i k d dc = (if largeTest E i k (flagsOf d) dc then minimize d else d)"

section \<open>Leaf counts\<close>

text \<open>
  \<open>_computeLeaves\<close>: the count is reset, a hidden or filtered node is left at \<open>0\<close> with its
  children untouched; otherwise the node may be minimized, and it either sums the counts
  of its children, each computed first, or counts as one leaf.
\<close>

fun computeLeaves :: "Externals \<Rightarrow> ModelData \<Rightarrow> node \<Rightarrow> node" where
  "computeLeaves E M (Node i d t p cs) =
    (let d0 = d\<lparr>numLeaves := 0\<rparr> in
     if hidden d0 \<or> filtered d0 then Node i d0 t p cs
     else
       let d1 = (if name i = ''_auto_ivc'' \<and> \<not> manuallyExpanded d0 then minimize d0
                 else if length (nodeIds M) > minimumNodes E
                   then minimizeIfLarge E i (length cs) d0 (lookup (depthCount M) (depth i))
                 else d0)
       in if cs \<noteq> [] \<and> \<not> minimized d1
          then (let cs' = map (computeLeaves E M) cs
                in Node i (d1\<lparr>numLeaves := foldl (\<lambda>acc c. acc + numLeaves (draw c)) 0 cs'\<rparr>) t p cs')
          else Node i (d1\<lparr>numLeaves := 1\<rparr>) t p cs)"

text \<open>All nodes of a tree, and the nodes the traversal of \<open>_computeLeaves\<close> reaches.\<close>

fun allNodes :: "node \<Rightarrow> node list" where
  "allNodes (Node i d t p cs) = Node i d t p cs # concat (map allNodes cs)"

fun reached :: "node \<Rightarrow> node list" where
  "reached (Node i d t p cs) =
     Node i d t p cs #
       (if \<not> (hidden d \<or> filtered d) \<and> cs \<noteq> [] \<and> \<not> minimized d
        then concat (map reached cs) else [])"

definition leafSum :: "node list \<Rightarrow> nat" where
  "leafSum cs = sum_list (map (\<lambda>c. numLeaves (draw c)) cs)"

text \<open>The three cases of the leaf-count invariant, for one node.\<close>

definition leavesRule :: "node \<Rightarrow> bool" where
  "leavesRule n =
     (if hidden (draw n) \<or> filtered (draw n) then numLeaves (draw n) = 0
      else if hasChildren n \<and> \<not> minimized (draw n)
        then numLeaves (draw n) = leafSum (children n)
      else numLeaves (draw n) = 1)"

section \<open>The layout object\<close>

record Column =
  width :: jsnum
  location :: jsnum

text \<open>The sizes the layout reads from \<open>dims.size\<close>; \<open>partitionTree.width\<close> is written too.\<close>

record Size =
  n2matrixHeight :: jsnum
  n2matrixWidth :: jsnum
  n2matrixMargin :: jsnum
  font :: jsnum
  minColumnWidth :: jsnum
  rightTextMargin :: jsnum
  parentNodeWidth :: jsnum
  partitionTreeWidth :: jsnum
  partitionTreeHeight :: jsnum

text \<open>
  Modelled from the spec: a coordinate mapping is a pair of linear mappings, each a domain
  and a pixel range, kept as a current and a previous instance; \<open>preserve\<close> copies the
  current instance into the previous one. The transit coordinates are kept the same way.
\<close>

record Linear =
  domainOf :: "jsnum \<times> jsnum"
  rangeOf :: "jsnum \<times> jsnum"

record Scale =
  scaleX :: Linear
  scaleY :: Linear
  prevScaleX :: Linear
  prevScaleY :: Linear

record Transit =
  transitX :: jsnum
  transitY :: jsnum
  prevTransit :: "(jsnum \<times> jsnum) option"

record Scales =
  scalesModel :: Scale
  firstRun :: bool

text \<open>
  The zoomed element is a node of the model tree; it is addressed by the child indices
  that lead to it from the root. The node lists hold the absolute path names of the
  nodes pushed. A count that was never assigned is \<open>None\<close>.
\<close>

record Layout =
  model :: ModelData
  zoomedElement :: "nat list"
  zoomedNodes :: "string list"
  visibleNodes :: "string list"
  curVisibleNodeCount :: "jsnum option"
  prevVisibleNodeCount :: "jsnum option"
  visibleNodeCount :: "jsnum option"
  layoutSize :: Size
  greatestDepth :: nat
  leafWidthsPx :: "jsnum option list"
  cols :: "Column list"
  scales :: "Scales option"
  transitCoords :: "Transit option"

text \<open>The part of \<open>d3.selection.prototype\<close> that the layout patches.\<close>

datatype func = ReturnThis | Original string

record D3Selection =
  transitionAllowed :: bool
  protoFuncs :: "string \<rightharpoonup> func"
  originalFuncs :: "(string \<times> func) list"

text \<open>The fields the constructor assigns before it calls \<open>_init\<close>.\<close>

definition constructorFields :: "ModelData \<Rightarrow> nat list \<Rightarrow> Size \<Rightarrow> Layout" where
  "constructorFields m z sz =
     \<lparr>model = m, zoomedElement = z, zoomedNodes = [], visibleNodes = [],
      curVisibleNodeCount = Some (Fin 0), prevVisibleNodeCount = Some (Fin 0),
      visibleNodeCount = None, layoutSize = sz, greatestDepth = 0, leafWidthsPx = [],
      cols = [], scales = None, transitCoords = None\<rparr>"

section \<open>Transition permission\<close>

definition highWaterMark :: "Layout \<Rightarrow> jsnum" where
  "highWaterMark L =
     mathMax (toNumber (visibleNodeCount L)) (ofNat (length (visibleNodes L)))"

definition restoreFuncs :: "(string \<times> func) list \<Rightarrow> (string \<rightharpoonup> func) \<Rightarrow> (string \<rightharpoonup> func)" where
  "restoreFuncs orig fs = foldl (\<lambda>m (k, v). m(k \<mapsto> v)) fs orig"

definition setTransitionPermission ::
  "Externals \<Rightarrow> Layout \<times> D3Selection \<Rightarrow> Layout \<times> D3Selection" where
  "setTransitionPermission E LG =
    (let L = fst LG; G = snd LG;
         L1 = L\<lparr>prevVisibleNodeCount := visibleNodeCount L\<rparr>;
         L2 = L1\<lparr>visibleNodeCount := Some (ofNat (length (visibleNodes L1)))\<rparr>;
         hwm = mathMax (toNumber (prevVisibleNodeCount L2)) (toNumber (visibleNodeCount L2))
     in if jge hwm (ofNat (maxNodes E))
        then (if \<not> transitionAllowed G then (L2, G)
              else (L2, G\<lparr>transitionAllowed := False,
                           protoFuncs := (protoFuncs G)(''transition'' \<mapsto> ReturnThis,
                              ''duration'' \<mapsto> ReturnThis, ''delay'' \<mapsto> ReturnThis)\<rparr>))
        else (if transitionAllowed G then (L2, G)
              else (L2, G\<lparr>transitionAllowed := True,
                           protoFuncs := restoreFuncs (originalFuncs G) (protoFuncs G)\<rparr>)))"

section \<open>Sample inputs\<close>

definition sampleExternals :: Externals where
  "sampleExternals =
     \<lparr>minimumNodes = 100, maxNodes = 5,
      largeTest = (\<lambda>i k fl dc. False),
      visibleTest = (\<lambda>i hc fl. \<not> fst fl),
      visibleLeafTest = (\<lambda>i hc fl. fst (snd (snd fl)) \<or> \<not> hc),
      renderedWidth = (\<lambda>s. Fin (8 * real (length s)))\<rparr>"

definition zeroDims :: Dimensions where
  "zeroDims = \<lparr>dimX = Fin 0, dimY = Fin 0, dimWidth = Fin 0, dimHeight = Fin 0\<rparr>"

definition freshDraw :: draw where
  "freshDraw =
     \<lparr>hidden = False, filtered = False, minimized = False, manuallyExpanded = False,
      numLeaves = 0, nameWidthPx = None, dims = zeroDims, prevDims = zeroDims\<rparr>"

definition mkNode :: "string \<Rightarrow> string \<Rightarrow> nat \<Rightarrow> bool \<Rightarrow> nat option \<Rightarrow> draw \<Rightarrow> node list \<Rightarrow> node" where
  "mkNode nm path d io pc dr cs =
     Node \<lparr>name = nm, absPathName = path, promotedName = None, depth = d,
           isInputOrOutput = io, isFilter = False, parentComponent = pc\<rparr> dr None None cs"

text \<open>A fresh model: the root holds the automatic component with one output.\<close>

definition ivcTree :: node where
  "ivcTree =
     mkNode ''root'' ''root'' 1 False None freshDraw
       [mkNode ''_auto_ivc'' ''_auto_ivc'' 2 False None freshDraw
          [mkNode ''v0'' ''_auto_ivc.v0'' 3 True (Some 0) freshDraw []]]"

definition sampleModel :: "node \<Rightarrow> ModelData" where
  "sampleModel r = \<lparr>rootNode = r, nodeIds = [0, 1, 2], depthCount = [0, 1, 1, 1], maxDepth = 3\<rparr>"

definition sampleSize :: Size where
  "sampleSize =
     \<lparr>n2matrixHeight = Fin 600, n2matrixWidth = Fin 600, n2matrixMargin = Fin 30,
      font = Fin 11, minColumnWidth = Fin 2, rightTextMargin = Fin 8,
      parentNodeWidth = Fin 40, partitionTreeWidth = Fin 0, partitionTreeHeight = Fin 600\<rparr>"

definition sampleD3 :: "bool \<Rightarrow> D3Selection" where
  "sampleD3 a = \<lparr>transitionAllowed = a, protoFuncs = Map.empty, originalFuncs = []\<rparr>"

text \<open>A layout that already ran once with three visible nodes and now shows five.\<close>

definition fiveVisible :: Layout where
  "fiveVisible =
     (constructorFields (sampleModel ivcTree) [] sampleSize)
       \<lparr>visibleNodes := [''a'', ''b'', ''c'', ''d'', ''e''], visibleNodeCount := Some (Fin 3)\<rparr>"

text \<open>A layout fresh from the constructor whose first pass found seven visible nodes.\<close>

definition sevenVisible :: Layout where
  "sevenVisible =
     (constructorFields (sampleModel ivcTree) [] sampleSize)
       \<lparr>visibleNodes := [''a'', ''b'', ''c'', ''d'', ''e'', ''f'', ''g'']\<rparr>"

section \<open>Errors and addressing\<close>

definition bindE :: "error + 'a \<Rightarrow> ('a \<Rightarrow> error + 'b) \<Rightarrow> error + 'b" where
  "bindE r f = (case r of Inl e \<Rightarrow> Inl e | Inr v \<Rightarrow> f v)"

fun getAt :: "node \<Rightarrow> nat list \<Rightarrow> node option" where
  "getAt n [] = Some n"
| "getAt n (k # ks) = (case lookup (children n) k of None \<Rightarrow> None | Some c \<Rightarrow> getAt c ks)"

fun putAt :: "node \<Rightarrow> nat list \<Rightarrow> node \<Rightarrow> node" where
  "putAt n [] v = v"
| "putAt (Node i d t p cs) (k # ks) v =
     (if k < length cs then Node i d t p (cs[k := putAt (cs ! k) ks v]) else Node i d t p cs)"

text \<open>
  A JavaScript array with holes: reading a hole or past the end gives \<open>undefined\<close>, writing
  past the end extends the array.
\<close>

definition arrayGet :: "'a option list \<Rightarrow> nat \<Rightarrow> 'a option" where
  "arrayGet xs i = (case lookup xs i of None \<Rightarrow> None | Some v \<Rightarrow> v)"

definition arraySet :: "'a option list \<Rightarrow> nat \<Rightarrow> 'a \<Rightarrow> 'a option list" where
  "arraySet xs i v =
     (if i < length xs then xs[i := Some v]
      else xs @ replicate (i - length xs) None @ [Some v])"

section \<open>Text widths\<close>

text \<open>\<open>_getTextWidth\<close>: a cached width is returned, a new one is rendered and cached.\<close>

definition getTextWidth ::
  "Externals \<Rightarrow> (string \<rightharpoonup> jsnum) \<Rightarrow> string \<Rightarrow> jsnum \<times> (string \<rightharpoonup> jsnum)" where
  "getTextWidth E cache text =
     (case cache text of
        Some w \<Rightarrow> (w, cache)
      | None \<Rightarrow> (renderedWidth E text, cache(text \<mapsto> renderedWidth E text)))"

definition getText :: "info \<Rightarrow> string" where
  "getText i =
     (if name i = ''_auto_ivc'' then ''Auto-IVC''
      else if isFilter i
        then (if suffix ''_N2_FILTER_inputs'' (name i) then ''Filtered Inputs''
              else ''Filtered Outputs'')
      else if prefix ''_auto_ivc'' (absPathName i) \<and> promotedName i \<noteq> None
        then the (promotedName i)
      else name i)"

fun updateTextWidths ::
    "Externals \<Rightarrow> Size \<Rightarrow> node \<Rightarrow> (string \<rightharpoonup> jsnum) \<Rightarrow> node \<times> (string \<rightharpoonup> jsnum)"
  and updateTextWidthsEach ::
    "Externals \<Rightarrow> Size \<Rightarrow> node list \<Rightarrow> (string \<rightharpoonup> jsnum) \<Rightarrow> node list \<times> (string \<rightharpoonup> jsnum)"
where
  "updateTextWidths E sz (Node i d t p cs) cache =
     (if hidden d then (Node i d t p cs, cache)
      else
        (case getTextWidth E cache (getText i) of
           (w, cache1) \<Rightarrow>
             (let d1 = d\<lparr>nameWidthPx := Some (jadd w (jmul (Fin 2) (rightTextMargin sz)))\<rparr>
              in if cs \<noteq> [] \<and> \<not> minimized d1
                 then (case updateTextWidthsEach E sz cs cache1 of
                         (cs', cache2) \<Rightarrow> (Node i d1 t p cs', cache2))
                 else (Node i d1 t p cs, cache1))))"
| "updateTextWidthsEach E sz [] cache = ([], cache)"
| "updateTextWidthsEach E sz (n # ns) cache =
     (case updateTextWidths E sz n cache of
        (n', cache1) \<Rightarrow>
          (case updateTextWidthsEach E sz ns cache1 of
             (ns', cache2) \<Rightarrow> (n' # ns', cache2)))"

section \<open>Column widths\<close>

text \<open>
  The state threaded through \<open>_setColumnWidthsFromWidestText\<close>: the column array, the
  leaf width array and \<open>greatestDepth\<close>.
\<close>

type_synonym colState = "Column list \<times> jsnum option list \<times> nat"

fun setColumnWidthsFromWidestText ::
    "Size \<Rightarrow> nat \<Rightarrow> node \<Rightarrow> colState \<Rightarrow> error + (node \<times> colState)"
  and setColumnWidthsEach ::
    "Size \<Rightarrow> nat \<Rightarrow> node list \<Rightarrow> colState \<Rightarrow> error + (node list \<times> colState)"
where
  "setColumnWidthsFromWidestText sz zl (Node i d t p cs) st =
     (if hidden d then Inr (Node i d t p cs, st)
      else
        (case st of
           (colArr, leafArr, gd) \<Rightarrow>
             (let height = jdiv (jmul (n2matrixHeight sz) (ofNat (numLeaves d))) (ofNat zl);
                  p1 = Some (case t of Some v \<Rightarrow> v | None \<Rightarrow> Fin 0);
                  t1 = (if jgt height (font sz) then Fin 1 else Fin 0);
                  hasVisibleDetail = jge height (Fin 2);
                  w0 = (if hasVisibleDetail then minColumnWidth sz else Fin (1 / 1000));
                  w = (if jgt t1 (Fin (1 / 2)) then toNumber (nameWidthPx d) else w0);
                  gd1 = max gd (depth i)
              in if cs \<noteq> [] \<and> \<not> minimized d
                 then (case lookup colArr (depth i) of
                         None \<Rightarrow> Inl TypeError
                       | Some c \<Rightarrow>
                           bindE (setColumnWidthsEach sz zl cs
                                   (colArr[depth i := c\<lparr>width := mathMax (width c) w\<rparr>], leafArr, gd1))
                             (\<lambda>(cs', st'). Inr (Node i d (Some t1) p1 cs', st')))
                 else if \<not> filtered d
                   then Inr (Node i d (Some t1) p1 cs,
                          (colArr,
                           arraySet leafArr (depth i)
                             (mathMax (toNumber (arrayGet leafArr (depth i))) w),
                           gd1))
                 else Inr (Node i d (Some t1) p1 cs, (colArr, leafArr, gd1)))))"
| "setColumnWidthsEach sz zl [] st = Inr ([], st)"
| "setColumnWidthsEach sz zl (n # ns) st =
     bindE (setColumnWidthsFromWidestText sz zl n st)
       (\<lambda>(n', st1). bindE (setColumnWidthsEach sz zl ns st1)
          (\<lambda>(ns', st2). Inr (n' # ns', st2)))"

text \<open>
  The loop of \<open>_computeColumnWidths\<close> from the last index of the leaf array down to the
  depth of the zoomed element; the counter \<open>k\<close> is the index plus one. The state is
  \<open>(sum, lastColumnWidth)\<close>.
\<close>

fun lastColumnLoop ::
  "Column list \<Rightarrow> jsnum option list \<Rightarrow> nat \<Rightarrow> nat \<Rightarrow> jsnum \<times> jsnum \<Rightarrow> error + (jsnum \<times> jsnum)" where
  "lastColumnLoop colArr leafArr zd 0 acc = Inr acc"
| "lastColumnLoop colArr leafArr zd (Suc i) acc =
     (if i < zd then Inr acc
      else (case lookup colArr i of
              None \<Rightarrow> Inl TypeError
            | Some c \<Rightarrow>
                (let sum = jadd (fst acc) (width c);
                     lastWidthNeeded = jsub (toNumber (arrayGet leafArr i)) sum
                 in lastColumnLoop colArr leafArr zd i
                      (sum, mathMax lastWidthNeeded (snd acc)))))"

text \<open>
  An assignment \<open>cols[k].width = w\<close>: the element read at a negative index or past the end
  is \<open>undefined\<close>, and setting a property of \<open>undefined\<close> throws.
\<close>

definition setWidthAt :: "Column list \<Rightarrow> int \<Rightarrow> jsnum \<Rightarrow> error + Column list" where
  "setWidthAt colArr k w =
     (if 0 \<le> k \<and> nat k < length colArr
      then Inr (colArr[nat k := (colArr ! nat k)\<lparr>width := w\<rparr>])
      else Inl TypeError)"

text \<open>The index \<open>zoomedElement.depth - 1\<close> of the column that gets the parent width.\<close>

definition parentColumnIndex :: "node \<Rightarrow> int" where
  "parentColumnIndex z = int (depth (info z)) - 1"

definition computeColumnWidths :: "Layout \<Rightarrow> error + Layout" where
  "computeColumnWidths L =
     (let M = model L;
          leaf0 = replicate (maxDepth M + 1) (Some (Fin 0));
          cols0 = replicate (maxDepth M + 1) \<lparr>width = Fin 0, location = Fin 0\<rparr>
      in case getAt (rootNode M) (zoomedElement L) of
           None \<Rightarrow> Inl TypeError
         | Some z \<Rightarrow>
             bindE (setColumnWidthsFromWidestText (layoutSize L) (numLeaves (draw z)) z
                      (cols0, leaf0, 0))
               (\<lambda>(z', cols1, leaf1, gd).
                  bindE (lastColumnLoop cols1 leaf1 (depth (info z)) (length leaf1) (Fin 0, Fin 0))
                    (\<lambda>(sum, lastColumnWidth).
                       bindE (setWidthAt cols1 (parentColumnIndex z) (parentNodeWidth (layoutSize L)))
                         (\<lambda>cols2.
                            bindE (setWidthAt cols2 (int gd) lastColumnWidth)
                              (\<lambda>cols3.
                                 Inr (L\<lparr>model := M\<lparr>rootNode := putAt (rootNode M) (zoomedElement L) z'\<rparr>,
                                        greatestDepth := gd, leafWidthsPx := leaf1,
                                        cols := cols3\<rparr>))))))"

section \<open>Column locations\<close>

text \<open>
  The loop of \<open>_setColumnLocations\<close> over the depths \<open>depth, ..., maxDepth\<close>, on the running
  width of the partition tree and the columns.
\<close>

function setColumnLocationsFrom ::
  "nat \<Rightarrow> nat \<Rightarrow> jsnum \<times> Column list \<Rightarrow> error + (jsnum \<times> Column list)" where
  "setColumnLocationsFrom md d st =
     (if d \<le> md
      then (case lookup (snd st) d of
              None \<Rightarrow> Inl TypeError
            | Some c \<Rightarrow>
                setColumnLocationsFrom md (Suc d)
                  (jadd (fst st) (width c), (snd st)[d := c\<lparr>location := fst st\<rparr>]))
      else Inr st)"
  by pat_completeness auto
termination
  by (relation "measure (\<lambda>(md, d, st). Suc md - d)") auto

definition setColumnLocations :: "nat \<Rightarrow> Column list \<Rightarrow> error + (jsnum \<times> Column list)" where
  "setColumnLocations md colArr = setColumnLocationsFrom md 1 (Fin 0, colArr)"

section \<open>Normalized positions\<close>

definition isVisible :: "Externals \<Rightarrow> node \<Rightarrow> bool" where
  "isVisible E n = visibleTest E (info n) (hasChildren n) (flagsOf (draw n))"

definition isVisibleLeaf :: "Externals \<Rightarrow> node \<Rightarrow> bool" where
  "isVisibleLeaf E n = visibleLeafTest E (info n) (hasChildren n) (flagsOf (draw n))"

text \<open>Modelled from the spec: \<open>preserveDims\<close> keeps a snapshot of the dims as the previous dims.\<close>

definition preserveDims :: "draw \<Rightarrow> draw" where
  "preserveDims d = d\<lparr>prevDims := dims d\<rparr>"

definition rootLeaves :: "Layout \<Rightarrow> nat" where
  "rootLeaves L = numLeaves (draw (rootNode (model L)))"

text \<open>The sentinel \<open>1e-6\<close> of a node that leaves the view.\<close>

definition sentinel :: jsnum where
  "sentinel = Fin (1 / 1000000)"

text \<open>
  The dims \<open>_computeNormalizedPositions\<close> assigns to one node. \<open>anc\<close> holds the ancestors
  of the node, the parent first, as they are when the node is reached; \<open>work\<close> is the
  earliest minimized parent when that is a proper ancestor, and \<open>None\<close> when the work
  node is the node itself.
\<close>

definition placeNode ::
  "Externals \<Rightarrow> Layout \<Rightarrow> node list \<Rightarrow> node \<Rightarrow> nat \<Rightarrow> node option \<Rightarrow> error + Dimensions" where
  "placeNode E L anc n leafCounter work =
     (let ptw = partitionTreeWidth (layoutSize L) in
      if \<not> isVisible E n
      then (case parentComponent (info n) of
              None \<Rightarrow> Inl TypeError
            | Some k \<Rightarrow>
                (case lookup anc k of
                   None \<Rightarrow> Inl TypeError
                 | Some pc \<Rightarrow>
                     (case lookup (cols L) (depth (info pc) + 1) of
                        None \<Rightarrow> Inl TypeError
                      | Some c \<Rightarrow>
                          Inr \<lparr>dimX = jdiv (location c) ptw,
                               dimY = dimY (dims (draw pc)),
                               dimWidth = sentinel, dimHeight = sentinel\<rparr>)))
      else
        (let workDepth = (case work of None \<Rightarrow> depth (info n) | Some a \<Rightarrow> depth (info a));
             workLeaves = (case work of None \<Rightarrow> numLeaves (draw n)
                           | Some a \<Rightarrow> numLeaves (draw a))
         in case lookup (cols L) workDepth of
              None \<Rightarrow> Inl TypeError
            | Some c \<Rightarrow>
                (let x = jdiv (location c) ptw;
                     workX = (case work of None \<Rightarrow> x | Some a \<Rightarrow> dimX (dims (draw a)))
                 in Inr \<lparr>dimX = x,
                         dimY = jdiv (ofNat leafCounter) (ofNat (rootLeaves L)),
                         dimWidth =
                           (if hasChildren n \<and> \<not> minimized (draw n) \<and> \<not> filtered (draw n)
                            then jdiv (width c) ptw else jsub (Fin 1) workX),
                         dimHeight = jdiv (ofNat workLeaves) (ofNat (rootLeaves L))\<rparr>)))"

text \<open>The path to the zoomed element as seen from child \<open>k\<close>.\<close>

fun childPath :: "nat list option \<Rightarrow> nat \<Rightarrow> nat list option" where
  "childPath (Some (j # ks)) k = (if j = k then Some ks else None)"
| "childPath _ k = None"

text \<open>
  \<open>_computeNormalizedPositions\<close>. \<open>L\<close> gives the columns, the tree width and the leaf
  count of the root, none of which the traversal changes; \<open>zp\<close> is the path from the node
  to the zoomed element while the node is on the way to it; the state is the pair of
  \<open>zoomedNodes\<close> and \<open>visibleNodes\<close>.
\<close>

type_synonym nodeLists = "string list \<times> string list"

function computeNormalizedPositions ::
    "Externals \<Rightarrow> Layout \<Rightarrow> node list \<Rightarrow> nat list option \<Rightarrow> node \<Rightarrow> nat \<Rightarrow> bool \<Rightarrow>
       node option \<Rightarrow> nodeLists \<Rightarrow> error + (node \<times> nodeLists)"
  and positionChildren ::
    "Externals \<Rightarrow> Layout \<Rightarrow> node list \<Rightarrow> nat list option \<Rightarrow> nat \<Rightarrow> node list \<Rightarrow> nat \<Rightarrow> bool \<Rightarrow>
       node option \<Rightarrow> nodeLists \<Rightarrow> error + (node list \<times> nodeLists)"
where
  "computeNormalizedPositions E L anc zp (Node i d t p cs) leafCounter isChildOfZoomed emp st =
     (let isChild = (if \<not> isChildOfZoomed then zp = Some [] else isChildOfZoomed);
          enters = (emp = None \<and> isChild \<and> isVisible E (Node i d t p cs));
          isLeaf = (enters \<and> isVisibleLeaf E (Node i d t p cs));
          st1 = (if enters then (fst st @ [absPathName i], snd st) else st);
          st2 = (if isLeaf \<and> \<not> hidden d then (fst st1, snd st1 @ [absPathName i]) else st1);
          d1 = preserveDims d
      in bindE (placeNode E L anc (Node i d1 t p cs) leafCounter (if isLeaf then None else emp))
           (\<lambda>dm.
              (let n2 = Node i (d1\<lparr>dims := dm\<rparr>) t p cs;
                   emp1 = (if isLeaf then Some n2 else emp)
               in if cs \<noteq> []
                  then bindE (positionChildren E L (n2 # anc) zp 0 cs leafCounter isChild emp1 st2)
                         (\<lambda>(cs', st3). Inr (Node i (d1\<lparr>dims := dm\<rparr>) t p cs', st3))
                  else Inr (n2, st2))))"
| "positionChildren E L anc zp k [] leafCounter isChild emp st = Inr ([], st)"
| "positionChildren E L anc zp k (c # cs) leafCounter isChild emp st =
     (if \<not> isInputOrOutput (info c) \<or> \<not> minimized (draw c)
      then bindE (computeNormalizedPositions E L anc (childPath zp k) c leafCounter isChild emp st)
             (\<lambda>(c', st1).
                bindE (positionChildren E L anc zp (Suc k) cs
                         (if emp = None then leafCounter + numLeaves (draw c') else leafCounter)
                         isChild emp st1)
                  (\<lambda>(cs', st2). Inr (c' # cs', st2)))
      else bindE (positionChildren E L anc zp (Suc k) cs leafCounter isChild emp st)
             (\<lambda>(cs', st2). Inr (c # cs', st2)))"
  by pat_completeness auto
termination
  by (relation "measure (\<lambda>x. case x of
        Inl (E, L, anc, zp, n, r) \<Rightarrow> size n
      | Inr (E, L, anc, zp, k, cs, r) \<Rightarrow> size_list size cs)") auto

section \<open>The layout pass\<close>

definition computeLeavesRoot :: "Externals \<Rightarrow> Layout \<Rightarrow> Layout" where
  "computeLeavesRoot E L =
     L\<lparr>model := (model L)\<lparr>rootNode := computeLeaves E (model L) (rootNode (model L))\<rparr>\<rparr>"

text \<open>\<open>_setupTextRenderer\<close> starts an empty cache, \<open>_updateTextWidths\<close> runs from the zoomed element.\<close>

definition updateTextWidthsZoomed :: "Externals \<Rightarrow> Layout \<Rightarrow> error + Layout" where
  "updateTextWidthsZoomed E L =
     (case getAt (rootNode (model L)) (zoomedElement L) of
        None \<Rightarrow> Inl TypeError
      | Some z \<Rightarrow>
          Inr (L\<lparr>model := (model L)\<lparr>rootNode :=
                 putAt (rootNode (model L)) (zoomedElement L)
                   (fst (updateTextWidths E (layoutSize L) z Map.empty))\<rparr>\<rparr>))"

definition setColumnLocationsLayout :: "Layout \<Rightarrow> error + Layout" where
  "setColumnLocationsLayout L =
     bindE (setColumnLocations (maxDepth (model L)) (cols L))
       (\<lambda>(w, colArr). Inr (L\<lparr>layoutSize := (layoutSize L)\<lparr>partitionTreeWidth := w\<rparr>,
                              cols := colArr\<rparr>))"

definition computePositionsRoot :: "Externals \<Rightarrow> Layout \<Rightarrow> error + Layout" where
  "computePositionsRoot E L =
     bindE (computeNormalizedPositions E L [] (Some (zoomedElement L)) (rootNode (model L)) 0
              False None (zoomedNodes L, visibleNodes L))
       (\<lambda>(r, zn, vn). Inr (L\<lparr>model := (model L)\<lparr>rootNode := r\<rparr>, zoomedNodes := zn,
                              visibleNodes := vn\<rparr>))"

text \<open>The zoomed element has a parent unless it is the root.\<close>

definition pushZoomedParent :: "Layout \<Rightarrow> Layout" where
  "pushZoomedParent L =
     (if zoomedElement L = [] then L
      else (case getAt (rootNode (model L)) (butlast (zoomedElement L)) of
              None \<Rightarrow> L
            | Some par \<Rightarrow> L\<lparr>zoomedNodes := zoomedNodes L @ [absPathName (info par)]\<rparr>))"

text \<open>The geometry steps of \<open>_init\<close>: leaf counts, text and column widths, column locations, positions.\<close>

definition layoutPass :: "Externals \<Rightarrow> Layout \<Rightarrow> error + Layout" where
  "layoutPass E L =
     bindE (updateTextWidthsZoomed E (computeLeavesRoot E L))
       (\<lambda>L1. bindE (computeColumnWidths L1)
          (\<lambda>L2. bindE (setColumnLocationsLayout L2)
             (\<lambda>L3. computePositionsRoot E L3)))"

text \<open>
  \<open>_init\<close>. The scale object that the external constructor \<open>Scale\<close> builds from the tree
  size is the parameter \<open>sc\<close>.
\<close>

definition init :: "Externals \<Rightarrow> Scale \<Rightarrow> Layout \<times> D3Selection \<Rightarrow> error + (Layout \<times> D3Selection)" where
  "init E sc LG =
     bindE (layoutPass E (fst LG))
       (\<lambda>L4. (case setTransitionPermission E (pushZoomedParent L4, snd LG) of
                 (L5, G) \<Rightarrow>
                   Inr (L5\<lparr>scales := Some \<lparr>scalesModel = sc, firstRun = True\<rparr>,
                           transitCoords :=
                             Some \<lparr>transitX = Fin 0, transitY = Fin 0, prevTransit = None\<rparr>\<rparr>, G)))"

definition newLayout ::
  "Externals \<Rightarrow> Scale \<Rightarrow> ModelData \<Rightarrow> nat list \<Rightarrow> Size \<Rightarrow> bool \<Rightarrow> D3Selection \<Rightarrow>
     error + (Layout \<times> D3Selection)" where
  "newLayout E sc m z sz callInit G =
     (if callInit then init E sc (constructorFields m z sz, G)
      else Inr (constructorFields m z sz, G))"

section \<open>Scale values\<close>

definition preserveScale :: "Scale \<Rightarrow> Scale" where
  "preserveScale s = s\<lparr>prevScaleX := scaleX s, prevScaleY := scaleY s\<rparr>"

definition preserveTransit :: "Transit \<Rightarrow> Transit" where
  "preserveTransit c = c\<lparr>prevTransit := Some (transitX c, transitY c)\<rparr>"

definition preservePreviousScaleValues :: "Transit \<times> Scales \<Rightarrow> Transit \<times> Scales" where
  "preservePreviousScaleValues cs =
     (preserveTransit (fst cs), (snd cs)\<lparr>scalesModel := preserveScale (scalesModel (snd cs))\<rparr>)"

definition updateScaleValues :: "Layout \<Rightarrow> error + Layout" where
  "updateScaleValues L =
     (case scales L of
        None \<Rightarrow> Inl TypeError
      | Some S \<Rightarrow>
          (case transitCoords L of
             None \<Rightarrow> Inl TypeError
           | Some C \<Rightarrow>
               (case getAt (rootNode (model L)) (zoomedElement L) of
                  None \<Rightarrow> Inl TypeError
                | Some z \<Rightarrow>
                    (let CS = (if \<not> firstRun S then preservePreviousScaleValues (C, S) else (C, S));
                         elemDims = dims (draw z);
                         tw = partitionTreeWidth (layoutSize L);
                         th = partitionTreeHeight (layoutSize L);
                         pnw = parentNodeWidth (layoutSize L);
                         C1 = (fst CS)\<lparr>transitX :=
                                  jdiv (if truthy (dimX elemDims) then jsub tw pnw else tw)
                                    (jsub (Fin 1) (dimX elemDims)),
                                transitY := jdiv th (dimHeight elemDims)\<rparr>;
                         sx = \<lparr>domainOf = (dimX elemDims, Fin 1),
                               rangeOf = (if truthy (dimX elemDims) then pnw else Fin 0, tw)\<rparr>;
                         sy = \<lparr>domainOf = (dimY elemDims, jadd (dimY elemDims) (dimHeight elemDims)),
                               rangeOf = (Fin 0, th)\<rparr>;
                         S1 = (snd CS)\<lparr>scalesModel :=
                                (scalesModel (snd CS))\<lparr>scaleX := sx, scaleY := sy\<rparr>\<rparr>
                     in Inr (L\<lparr>scales := Some S1, transitCoords := Some C1\<rparr>)))))"

text \<open>
  A root with a leaf \<open>A\<close> and a collapsed group \<open>B\<close> whose two children were counted as
  leaves by an earlier pass, before \<open>B\<close> was collapsed.
\<close>

definition collapsedTree :: node where
  "collapsedTree =
     mkNode ''root'' ''root'' 1 False None freshDraw
       [mkNode ''A'' ''A'' 2 False None freshDraw [],
        mkNode ''B'' ''B'' 2 False None (freshDraw\<lparr>minimized := True\<rparr>)
          [mkNode ''b1'' ''B.b1'' 3 False None (freshDraw\<lparr>numLeaves := 1\<rparr>) [],
           mkNode ''b2'' ''B.b2'' 3 False None (freshDraw\<lparr>numLeaves := 1\<rparr>) []]]"

text \<open>A model whose root was given depth \<open>0\<close>.\<close>

definition depthZeroTree :: node where
  "depthZeroTree =
     mkNode ''root'' ''root'' 0 False None freshDraw
       [mkNode ''A'' ''A'' 1 False None freshDraw []]"

text \<open>The layout of a sample tree when \<open>_computeColumnWidths\<close> is entered.\<close>

definition beforeColumns :: "node \<Rightarrow> nat list \<Rightarrow> error + Layout" where
  "beforeColumns r z =
     updateTextWidthsZoomed sampleExternals
       (computeLeavesRoot sampleExternals (constructorFields (sampleModel r) z sampleSize))"

text \<open>A number that is not \<open>NaN\<close> and not negative.\<close>

definition nonneg :: "jsnum \<Rightarrow> bool" where
  "nonneg v = jle (Fin 0) v"

text \<open>The widths of the columns at depths \<open>1, ..., d - 1\<close>, added up from the left.\<close>

definition cumWidth :: "Column list \<Rightarrow> nat \<Rightarrow> jsnum" where
  "cumWidth colArr d = foldl jadd (Fin 0) (map width (take (d - 1) (drop 1 colArr)))"

text \<open>The number of childless nodes in a subtree.\<close>

fun descendantLeaves :: "node \<Rightarrow> nat" where
  "descendantLeaves (Node i d t p cs) =
     (if cs = [] then 1 else sum_list (map descendantLeaves cs))"

text \<open>A component with a hidden input and a shown output.\<close>

definition hiddenInputTree :: node where
  "hiddenInputTree =
     mkNode ''root'' ''root'' 1 False None freshDraw
       [mkNode ''comp'' ''comp'' 2 False None freshDraw
          [mkNode ''x'' ''comp.x'' 3 True (Some 0) (freshDraw\<lparr>hidden := True\<rparr>) [],
           mkNode ''y'' ''comp.y'' 3 True (Some 0) freshDraw []]]"

definition sampleLayout :: "node \<Rightarrow> nat list \<Rightarrow> Layout" where
  "sampleLayout r z = constructorFields (sampleModel r) z sampleSize"

text \<open>The columns and the tree width that the pass computes for \<open>hiddenInputTree\<close>.\<close>

definition placedLayout :: Layout where
  "placedLayout =
     (sampleLayout hiddenInputTree [])
       \<lparr>layoutSize := sampleSize\<lparr>partitionTreeWidth := Fin 120\<rparr>,
        cols := [\<lparr>width = Fin 40, location = Fin 0\<rparr>, \<lparr>width = Fin 48, location = Fin 0\<rparr>,
                 \<lparr>width = Fin 48, location = Fin 48\<rparr>, \<lparr>width = Fin 24, location = Fin 96\<rparr>]\<rparr>"

definition hiddenInput :: node where
  "hiddenInput = mkNode ''x'' ''comp.x'' 3 True (Some 0) (freshDraw\<lparr>hidden := True\<rparr>) []"

definition placedComponent :: node where
  "placedComponent =
     mkNode ''comp'' ''comp'' 2 False None
       (freshDraw\<lparr>numLeaves := 1,
          dims := \<lparr>dimX = Fin (2 / 5), dimY = Fin 0, dimWidth = Fin (2 / 5), dimHeight = Fin 1\<rparr>\<rparr>)
       []"

definition collapsedGroup :: node where
  "collapsedGroup =
     mkNode ''B'' ''B'' 2 False None (freshDraw\<lparr>minimized := True\<rparr>)
       [mkNode ''b1'' ''B.b1'' 3 False None (freshDraw\<lparr>numLeaves := 1\<rparr>) [],
        mkNode ''b2'' ''B.b2'' 3 False None (freshDraw\<lparr>numLeaves := 1\<rparr>) []]"

text \<open>The layout of \<open>collapsedTree\<close> after the leaf counts, with columns set by hand.\<close>

definition collapsedLayout :: Layout where
  "collapsedLayout =
     (computeLeavesRoot sampleExternals (sampleLayout collapsedTree []))
       \<lparr>layoutSize := sampleSize\<lparr>partitionTreeWidth := Fin 72\<rparr>,
        cols := [\<lparr>width = Fin 40, location = Fin 0\<rparr>, \<lparr>width = Fin 48, location = Fin 0\<rparr>,
                 \<lparr>width = Fin 24, location = Fin 48\<rparr>, \<lparr>width = Fin 0, location = Fin 72\<rparr>]\<rparr>"

definition sampleScale :: Scale where
  "sampleScale =
     \<lparr>scaleX = \<lparr>domainOf = (Fin 0, Fin 1), rangeOf = (Fin 0, Fin 100)\<rparr>,
      scaleY = \<lparr>domainOf = (Fin 0, Fin 1), rangeOf = (Fin 0, Fin 200)\<rparr>,
      prevScaleX = \<lparr>domainOf = (Fin 0, Fin 1), rangeOf = (Fin 0, Fin 1)\<rparr>,
      prevScaleY = \<lparr>domainOf = (Fin 0, Fin 1), rangeOf = (Fin 0, Fin 1)\<rparr>\<rparr>"

text \<open>A layout of \<open>collapsedTree\<close> zoomed on \<open>A\<close>, built with \<open>_init\<close>, on its second update.\<close>

definition zoomedOnA :: "error + Layout" where
  "zoomedOnA =
     bindE (init sampleExternals sampleScale (sampleLayout collapsedTree [0], sampleD3 True))
       (\<lambda>LG. Inr ((fst LG)\<lparr>scales := Some \<lparr>scalesModel = sampleScale, firstRun = False\<rparr>\<rparr>))"

section \<open>Comparing two states of the tree\<close>

text \<open>
  Two trees agree on a key of the draw state when they have the same shape, the same
  identities and the same key at every node.
\<close>

fun relBy :: "(draw \<Rightarrow> 'k) \<Rightarrow> node \<Rightarrow> node \<Rightarrow> bool"
  and relBys :: "(draw \<Rightarrow> 'k) \<Rightarrow> node list \<Rightarrow> node list \<Rightarrow> bool"
where
  "relBy key (Node i d t p cs) (Node i' d' t' p' cs') =
     (i = i' \<and> key d = key d' \<and> relBys key cs cs')"
| "relBys key [] [] = True"
| "relBys key (c # cs) (c' # cs') = (relBy key c c' \<and> relBys key cs cs')"
| "relBys key [] (c' # cs') = False"
| "relBys key (c # cs) [] = False"

text \<open>The flags and the leaf count; with the text width; with the dims.\<close>

definition keyL :: "draw \<Rightarrow> flags \<times> nat" where
  "keyL d = (flagsOf d, numLeaves d)"

definition keyW :: "draw \<Rightarrow> (flags \<times> nat) \<times> jsnum option" where
  "keyW d = (keyL d, nameWidthPx d)"

definition keyG :: "draw \<Rightarrow> ((flags \<times> nat) \<times> jsnum option) \<times> Dimensions" where
  "keyG d = (keyW d, dims d)"

text \<open>The geometry of a layout: the leaf count and the dims of every node, and the columns.\<close>

definition geometry :: "Layout \<Rightarrow> (nat \<times> Dimensions) list \<times> Column list" where
  "geometry L =
     (map (\<lambda>n. (numLeaves (draw n), dims (draw n))) (allNodes (rootNode (model L))), cols L)"

text \<open>The two minimizing branches of \<open>_computeLeaves\<close>, for a node with \<open>k\<close> children.\<close>

definition precollapse :: "Externals \<Rightarrow> ModelData \<Rightarrow> info \<Rightarrow> nat \<Rightarrow> draw \<Rightarrow> draw" where
  "precollapse E M i k x =
     (if name i = ''_auto_ivc'' \<and> \<not> manuallyExpanded x then minimize x
      else if length (nodeIds M) > minimumNodes E
        then minimizeIfLarge E i k x (lookup (depthCount M) (depth i))
      else x)"

text \<open>
  The opacity and the width that \<open>_setColumnWidthsFromWidestText\<close> computes for a node from
  its draw state, and the state a traversal ends in, without the tree.
\<close>

definition labelOpacity :: "Size \<Rightarrow> nat \<Rightarrow> draw \<Rightarrow> jsnum" where
  "labelOpacity sz zl d =
     (if jgt (jdiv (jmul (n2matrixHeight sz) (ofNat (numLeaves d))) (ofNat zl)) (font sz)
      then Fin 1 else Fin 0)"

definition labelWidth :: "Size \<Rightarrow> nat \<Rightarrow> draw \<Rightarrow> jsnum" where
  "labelWidth sz zl d =
     (if jgt (labelOpacity sz zl d) (Fin (1 / 2)) then toNumber (nameWidthPx d)
      else if jge (jdiv (jmul (n2matrixHeight sz) (ofNat (numLeaves d))) (ofNat zl)) (Fin 2)
        then minColumnWidth sz
      else Fin (1 / 1000))"

definition outState :: "error + ('a \<times> 's) \<Rightarrow> error + 's" where
  "outState r = (case r of Inl e \<Rightarrow> Inl e | Inr x \<Rightarrow> Inr (snd x))"

text \<open>A child that the loop of \<open>_computeNormalizedPositions\<close> passes over.\<close>

definition skipped :: "node \<Rightarrow> bool" where
  "skipped c = (isInputOrOutput (info c) \<and> minimized (draw c))"

text \<open>
  Two trees agree for the positions when they agree on the flags, the leaf counts and the
  text widths, and on the dims as well below a child that is passed over.
\<close>

fun simP :: "node \<Rightarrow> node \<Rightarrow> bool"
  and simPs :: "node list \<Rightarrow> node list \<Rightarrow> bool"
where
  "simP (Node i d t p cs) (Node i' d' t' p' cs') = (i = i' \<and> keyW d = keyW d' \<and> simPs cs cs')"
| "simPs [] [] = True"
| "simPs (c # cs) (c' # cs') =
     ((if skipped c then relBy keyG c c' else simP c c') \<and> simPs cs cs')"
| "simPs [] (c' # cs') = False"
| "simPs (c # cs) [] = False"

text \<open>What the placing of a node reads from an ancestor.\<close>

definition viewEq :: "node \<Rightarrow> node \<Rightarrow> bool" where
  "viewEq a b =
     (info a = info b \<and> numLeaves (draw a) = numLeaves (draw b) \<and> dims (draw a) = dims (draw b))"

definition sameColumns :: "Layout \<Rightarrow> Layout \<Rightarrow> bool" where
  "sameColumns La Lb =
     (cols La = cols Lb \<and>
      partitionTreeWidth (layoutSize La) = partitionTreeWidth (layoutSize Lb) \<and>
      rootLeaves La = rootLeaves Lb)"

text \<open>The conditions \<open>_computeNormalizedPositions\<close> evaluates when it reaches a node.\<close>

definition childOfZoomed :: "nat list option \<Rightarrow> bool \<Rightarrow> bool" where
  "childOfZoomed zp isChildOfZoomed = (if \<not> isChildOfZoomed then zp = Some [] else isChildOfZoomed)"

definition entersView :: "Externals \<Rightarrow> nat list option \<Rightarrow> bool \<Rightarrow> node option \<Rightarrow> node \<Rightarrow> bool" where
  "entersView E zp isChildOfZoomed emp n =
     (emp = None \<and> childOfZoomed zp isChildOfZoomed \<and> isVisible E n)"

definition becomesLeaf :: "Externals \<Rightarrow> nat list option \<Rightarrow> bool \<Rightarrow> node option \<Rightarrow> node \<Rightarrow> bool" where
  "becomesLeaf E zp isChildOfZoomed emp n =
     (entersView E zp isChildOfZoomed emp n \<and> isVisibleLeaf E n)"

definition listsAfter ::
  "Externals \<Rightarrow> nat list option \<Rightarrow> bool \<Rightarrow> node option \<Rightarrow> node \<Rightarrow> nodeLists \<Rightarrow> nodeLists" where
  "listsAfter E zp isChildOfZoomed emp n st =
     (let st1 = (if entersView E zp isChildOfZoomed emp n
                 then (fst st @ [absPathName (info n)], snd st) else st)
      in if becomesLeaf E zp isChildOfZoomed emp n \<and> \<not> hidden (draw n)
         then (fst st1, snd st1 @ [absPathName (info n)]) else st1)"

text \<open>Two runs end the same way, and with results in a given relation.\<close>

definition sameOutcome :: "('a \<Rightarrow> 'b \<Rightarrow> bool) \<Rightarrow> error + 'a \<times> 's \<Rightarrow> error + 'b \<times> 't \<Rightarrow> bool" where
  "sameOutcome R r r' =
     (case r of
        Inl e \<Rightarrow> (case r' of Inl e' \<Rightarrow> True | Inr y \<Rightarrow> False)
      | Inr x \<Rightarrow> (case r' of Inl e' \<Rightarrow> False | Inr y \<Rightarrow> R (fst x) (fst y)))"

text \<open>
  The state \<open>_computeColumnWidths\<close> starts from, and its steps after the traversal: the loop
  for the last column, then the two assignments.
\<close>

definition columnStart :: "nat \<Rightarrow> colState" where
  "columnStart md =
     (replicate (md + 1) \<lparr>width = Fin 0, location = Fin 0\<rparr>, replicate (md + 1) (Some (Fin 0)), 0)"

definition finishColumns :: "Size \<Rightarrow> node \<Rightarrow> colState \<Rightarrow> error + Column list" where
  "finishColumns sz z st =
     bindE (lastColumnLoop (fst st) (fst (snd st)) (depth (info z)) (length (fst (snd st)))
              (Fin 0, Fin 0))
       (\<lambda>acc. bindE (setWidthAt (fst st) (parentColumnIndex z) (parentNodeWidth sz))
          (\<lambda>cols2. setWidthAt cols2 (int (snd (snd st))) (snd acc)))"

section \<open>The bounds of the normalized positions\<close>

text \<open>
  The nodes \<open>_computeNormalizedPositions\<close> assigns dims to, from a node down: every child
  except a minimized input or output, which the loop passes over.
\<close>

fun walked :: "node \<Rightarrow> node list" where
  "walked (Node i d t p cs) =
     Node i d t p cs # concat (map walked (filter (\<lambda>c. \<not> skipped c) cs))"

text \<open>The leaf counts the loop adds to the leaf counter over the children of a node.\<close>

definition walkLeaves :: "node list \<Rightarrow> nat" where
  "walkLeaves cs = leafSum (filter (\<lambda>c. \<not> skipped c) cs)"

text \<open>
  The leaf counts are consistent along the traversal: at every node reached with no earliest
  minimized parent, which does not become one itself, the counts the loop adds over its
  children are at most its own count.
\<close>

fun counted :: "Externals \<Rightarrow> nat list option \<Rightarrow> bool \<Rightarrow> node \<Rightarrow> bool"
  and countedEach :: "Externals \<Rightarrow> nat list option \<Rightarrow> nat \<Rightarrow> bool \<Rightarrow> node list \<Rightarrow> bool"
where
  "counted E zp isChildOfZoomed (Node i d t p cs) =
     (becomesLeaf E zp isChildOfZoomed None (Node i d t p cs) \<or>
      (walkLeaves cs \<le> numLeaves d \<and> countedEach E zp 0 (childOfZoomed zp isChildOfZoomed) cs))"
| "countedEach E zp k isChildOfZoomed [] = True"
| "countedEach E zp k isChildOfZoomed (c # cs) =
     ((skipped c \<or> counted E (childPath zp k) isChildOfZoomed c) \<and>
      countedEach E zp (Suc k) isChildOfZoomed cs)"

text \<open>
  A column lies within the tree width; the columns from depth \<open>1\<close> on do, and the tree width
  is positive and finite.
\<close>

definition fits :: "jsnum \<Rightarrow> Column \<Rightarrow> bool" where
  "fits ptw c =
     (jle (Fin 0) (location c) \<and> jle (Fin 0) (width c) \<and> jle (jadd (location c) (width c)) ptw)"

definition columnsFit :: "Layout \<Rightarrow> bool" where
  "columnsFit L =
     (jlt (Fin 0) (partitionTreeWidth (layoutSize L)) \<and> jlt (partitionTreeWidth (layoutSize L)) PosInf \<and>
      list_all (fits (partitionTreeWidth (layoutSize L))) (tl (cols L)))"

text \<open>The bounds of the dims, with the tolerance \<open>eps\<close>.\<close>

definition inBounds :: "real \<Rightarrow> Dimensions \<Rightarrow> bool" where
  "inBounds eps d =
     (jle (Fin 0) (dimX d) \<and> jle (dimX d) (Fin 1) \<and> jle (Fin 0) (dimY d) \<and> jle (dimY d) (Fin 1) \<and>
      jle (jadd (dimX d) (dimWidth d)) (Fin (1 + eps)) \<and>
      jle (jadd (dimY d) (dimHeight d)) (Fin (1 + eps)))"

definition yInRange :: "node \<Rightarrow> bool" where
  "yInRange a = (jle (Fin 0) (dimY (dims (draw a))) \<and> jle (dimY (dims (draw a))) (Fin 1))"

text \<open>
  An earliest minimized parent as the traversal leaves it: its rows fit below the leaf
  counter, and its \<open>x\<close> is that of its column.
\<close>

definition empFits :: "Layout \<Rightarrow> nat \<Rightarrow> node \<Rightarrow> bool" where
  "empFits L leafCounter e =
     (leafCounter + numLeaves (draw e) \<le> rootLeaves L \<and> 0 < depth (info e) \<and>
      (case lookup (cols L) (depth (info e)) of
         None \<Rightarrow> False
       | Some c \<Rightarrow> dimX (dims (draw e)) = jdiv (location c) (partitionTreeWidth (layoutSize L))))"

text \<open>\<open>hiddenInputTree\<close> with its leaf counts, and the columns the pass computes for it.\<close>

definition countedLayout :: Layout where
  "countedLayout = computeLeavesRoot sampleExternals placedLayout"

text \<open>A tree that holds no leaf counts of an earlier pass.\<close>

definition uncounted :: "node \<Rightarrow> bool" where
  "uncounted n = list_all (\<lambda>m. numLeaves (draw m) = 0) (allNodes n)"

text \<open>A hidden group whose input holds the count of an earlier pass.\<close>

definition hiddenGroup :: node where
  "hiddenGroup =
     mkNode ''g'' ''g'' 2 False None (freshDraw\<lparr>hidden := True, numLeaves := 4\<rparr>)
       [mkNode ''x'' ''g.x'' 3 True (Some 0) (freshDraw\<lparr>numLeaves := 1\<rparr>) []]"

text \<open>
  The traversal of \<open>_computeNormalizedPositions\<close> reaches the node at a path: no node on the
  path below the start is a child the loop passes over.
\<close>

fun pathWalked :: "node \<Rightarrow> nat list \<Rightarrow> bool" where
  "pathWalked n [] = True"
| "pathWalked n (k # ks) =
     (case lookup (children n) k of None \<Rightarrow> False | Some c \<Rightarrow> \<not> skipped c \<and> pathWalked c ks)"

text \<open>The layout of \<open>collapsedTree\<close> zoomed on the root, after its first run.\<close>

definition zoomedOnRoot :: "error + Layout" where
  "zoomedOnRoot =
     bindE (init sampleExternals sampleScale (sampleLayout collapsedTree [], sampleD3 True))
       (\<lambda>LG. Inr ((fst LG)\<lparr>scales := Some \<lparr>scalesModel = sampleScale, firstRun = False\<rparr>\<rparr>))"

section \<open>Properties of the leaf counts\<close>

lemma foldl_leafSum: "foldl (\<lambda>acc c. acc + numLeaves (draw c)) a cs = a + leafSum cs"
  by (induction cs arbitrary: a) (simp_all add: leafSum_def)

lemma computeLeaves_hidden:
  "hidden (draw n) \<or> filtered (draw n) \<Longrightarrow>
   computeLeaves E M n =
     Node (info n) ((draw n)\<lparr>numLeaves := 0\<rparr>) (textOpacity n) (prevTextOpacity n) (children n)"
  by (cases n) auto

lemma computeLeaves_reached_ok: "list_all leavesRule (reached (computeLeaves E M n))"
proof (induction E M n rule: computeLeaves.induct)
  case (1 E M i d t p cs)
  then show ?case
    by (auto simp: Let_def leavesRule_def hasChildren_def foldl_leafSum minimize_def
        minimizeIfLarge_def list_all_iff)
qed

lemma computeLeaves_cases:
  "info (computeLeaves E M n) = info n \<and>
   hidden (draw (computeLeaves E M n)) = hidden (draw n) \<and>
   filtered (draw (computeLeaves E M n)) = filtered (draw n) \<and>
   (hidden (draw n) \<or> filtered (draw n) \<longrightarrow>
      computeLeaves E M n =
        Node (info n) ((draw n)\<lparr>numLeaves := 0\<rparr>) (textOpacity n) (prevTextOpacity n)
          (children n)) \<and>
   (\<not> hidden (draw n) \<and> \<not> filtered (draw n) \<and> children n \<noteq> [] \<and>
    \<not> minimized (draw (computeLeaves E M n)) \<longrightarrow>
      children (computeLeaves E M n) = map (computeLeaves E M) (children n) \<and>
      numLeaves (draw (computeLeaves E M n)) = leafSum (map (computeLeaves E M) (children n))) \<and>
   (\<not> hidden (draw n) \<and> \<not> filtered (draw n) \<and>
    (children n = [] \<or> minimized (draw (computeLeaves E M n))) \<longrightarrow>
      children (computeLeaves E M n) = children n \<and>
      numLeaves (draw (computeLeaves E M n)) = 1)"
  by (cases n) (auto simp: Let_def foldl_leafSum minimize_def minimizeIfLarge_def)

text \<open>
  C1, as amended. \<open>_computeLeaves\<close> on a node, which is the model root and then every child
  the traversal descends into, keeps the identity of the node and its hidden and filtered
  flags, and does one of three things. A hidden or filtered node is returned with the count
  \<open>0\<close> and its children exactly as they were: they are not recursed into, and the node adds
  nothing to the sum of its parent. A node that is neither, has children and is not
  minimized when the pass has had its chance to minimize it, has each child processed in turn
  and the sum of their counts as its count. Every other node that is neither hidden nor
  filtered, a node without children or a minimized one, gets the count \<open>1\<close> and its children
  exactly as they were: the nodes below a minimized node are not visited and keep the counts
  they had. So the rule of the count holds at every node the traversal reaches.
\<close>

theorem computeLeaves_rule_on_reached:
  "list_all leavesRule (reached (computeLeaves E M n)) \<and>
   info (computeLeaves E M n) = info n \<and>
   hidden (draw (computeLeaves E M n)) = hidden (draw n) \<and>
   filtered (draw (computeLeaves E M n)) = filtered (draw n) \<and>
   (hidden (draw n) \<or> filtered (draw n) \<longrightarrow>
      computeLeaves E M n =
        Node (info n) ((draw n)\<lparr>numLeaves := 0\<rparr>) (textOpacity n) (prevTextOpacity n)
          (children n)) \<and>
   (\<not> hidden (draw n) \<and> \<not> filtered (draw n) \<and> children n \<noteq> [] \<and>
    \<not> minimized (draw (computeLeaves E M n)) \<longrightarrow>
      children (computeLeaves E M n) = map (computeLeaves E M) (children n) \<and>
      numLeaves (draw (computeLeaves E M n)) = leafSum (map (computeLeaves E M) (children n))) \<and>
   (\<not> hidden (draw n) \<and> \<not> filtered (draw n) \<and>
    (children n = [] \<or> minimized (draw (computeLeaves E M n))) \<longrightarrow>
      children (computeLeaves E M n) = children n \<and>
      numLeaves (draw (computeLeaves E M n)) = 1)"
  using computeLeaves_reached_ok [of E M n] computeLeaves_cases [of E M n] by blast

theorem computeLeaves_rule_on_reached_witness:
  "hidden (draw hiddenGroup) \<and> children hiddenGroup \<noteq> [] \<and>
   numLeaves (draw (computeLeaves sampleExternals (sampleModel ivcTree) hiddenGroup)) = 0 \<and>
   children (computeLeaves sampleExternals (sampleModel ivcTree) hiddenGroup) = children hiddenGroup \<and>
   map (\<lambda>c. numLeaves (draw c))
     (children (computeLeaves sampleExternals (sampleModel ivcTree) hiddenGroup)) = [1] \<and>
   \<not> hidden (draw collapsedGroup) \<and> \<not> filtered (draw collapsedGroup) \<and>
   minimized (draw (computeLeaves sampleExternals (sampleModel collapsedTree) collapsedGroup)) \<and>
   numLeaves (draw (computeLeaves sampleExternals (sampleModel collapsedTree) collapsedGroup)) = 1 \<and>
   children (computeLeaves sampleExternals (sampleModel collapsedTree) collapsedGroup)
     = children collapsedGroup \<and>
   map (\<lambda>c. numLeaves (draw c))
     (children (computeLeaves sampleExternals (sampleModel collapsedTree) collapsedGroup)) = [1, 1] \<and>
   \<not> hidden (draw collapsedTree) \<and> \<not> filtered (draw collapsedTree) \<and>
   children collapsedTree \<noteq> [] \<and>
   \<not> minimized (draw (computeLeaves sampleExternals (sampleModel collapsedTree) collapsedTree)) \<and>
   children (computeLeaves sampleExternals (sampleModel collapsedTree) collapsedTree)
     = map (computeLeaves sampleExternals (sampleModel collapsedTree)) (children collapsedTree) \<and>
   numLeaves (draw (computeLeaves sampleExternals (sampleModel collapsedTree) collapsedTree)) = 2 \<and>
   list_all leavesRule
     (reached (computeLeaves sampleExternals (sampleModel collapsedTree) collapsedTree))"
proof -
  have h: "hidden (draw hiddenGroup) \<and> children hiddenGroup \<noteq> [] \<and>
           map (\<lambda>c. numLeaves (draw c)) (children hiddenGroup) = [1]"
    by (simp add: hiddenGroup_def mkNode_def freshDraw_def)
  have g: "\<not> hidden (draw collapsedGroup) \<and> \<not> filtered (draw collapsedGroup) \<and>
           minimized (draw (computeLeaves sampleExternals (sampleModel collapsedTree) collapsedGroup)) \<and>
           map (\<lambda>c. numLeaves (draw c)) (children collapsedGroup) = [1, 1]"
    by code_simp
  have t: "\<not> hidden (draw collapsedTree) \<and> \<not> filtered (draw collapsedTree) \<and>
           children collapsedTree \<noteq> [] \<and>
           \<not> minimized (draw (computeLeaves sampleExternals (sampleModel collapsedTree) collapsedTree)) \<and>
           leafSum (map (computeLeaves sampleExternals (sampleModel collapsedTree))
             (children collapsedTree)) = 2"
    by code_simp
  from computeLeaves_rule_on_reached [of sampleExternals "sampleModel ivcTree" hiddenGroup] h
  have 1: "numLeaves (draw (computeLeaves sampleExternals (sampleModel ivcTree) hiddenGroup)) = 0"
    "children (computeLeaves sampleExternals (sampleModel ivcTree) hiddenGroup) = children hiddenGroup"
    by simp_all
  from computeLeaves_rule_on_reached [of sampleExternals "sampleModel collapsedTree" collapsedGroup] g
  have 2: "numLeaves (draw (computeLeaves sampleExternals (sampleModel collapsedTree) collapsedGroup)) = 1"
    "children (computeLeaves sampleExternals (sampleModel collapsedTree) collapsedGroup)
       = children collapsedGroup"
    by simp_all
  from computeLeaves_rule_on_reached [of sampleExternals "sampleModel collapsedTree" collapsedTree] t
  have 3: "children (computeLeaves sampleExternals (sampleModel collapsedTree) collapsedTree)
       = map (computeLeaves sampleExternals (sampleModel collapsedTree)) (children collapsedTree)"
    "numLeaves (draw (computeLeaves sampleExternals (sampleModel collapsedTree) collapsedTree)) = 2"
    "list_all leavesRule
       (reached (computeLeaves sampleExternals (sampleModel collapsedTree) collapsedTree))"
    by simp_all
  from h g t 1 2 3 show ?thesis
    by simp
qed

text \<open>
  C1 as stated, for every node of the tree, fails: in a fresh model the automatic
  component is minimized by the pass itself, its output is never visited and keeps the
  count \<open>0\<close> it had, although it is a leaf that is neither hidden nor filtered.
\<close>

theorem computeLeaves_all_nodes_counterexample:
  "\<not> list_all leavesRule
       (allNodes (computeLeaves sampleExternals (sampleModel ivcTree) ivcTree))"
  by (simp add: ivcTree_def mkNode_def freshDraw_def sampleExternals_def sampleModel_def
      leavesRule_def hasChildren_def minimize_def Let_def leafSum_def)

section \<open>Properties of the transition permission\<close>

lemma mathMax_NaN_left: "mathMax NaN b = NaN"
  by simp

lemma jge_NaN_left: "\<not> jge NaN b"
  by (cases b) (simp_all add: jge_def)

lemma setTransitionPermission_flag:
  "transitionAllowed (snd (setTransitionPermission E (L, G))) =
     (\<not> jge (highWaterMark L) (ofNat (maxNodes E)))"
  by (simp add: setTransitionPermission_def highWaterMark_def Let_def)

text \<open>
  C9. The constructor leaves \<open>visibleNodeCount\<close> unassigned. Whenever
  \<open>setTransitionPermission\<close> runs on a layout whose \<open>visibleNodeCount\<close> was never assigned,
  the previous count it stores is undefined, the high-water mark is \<open>NaN\<close>, the comparison
  with the maximum is false and transitions end up allowed, whatever the list of visible
  nodes holds.
\<close>

theorem first_setTransitionPermission_allows:
  "visibleNodeCount (constructorFields m z sz) = None \<and>
   (visibleNodeCount L = None \<longrightarrow>
      prevVisibleNodeCount (fst (setTransitionPermission E (L, G))) = None \<and>
      highWaterMark L = NaN \<and>
      \<not> jge (highWaterMark L) (ofNat (maxNodes E)) \<and>
      transitionAllowed (snd (setTransitionPermission E (L, G))))"
proof -
  have "visibleNodeCount (constructorFields m z sz) = None"
    by (simp add: constructorFields_def)
  moreover have "highWaterMark L = NaN" if "visibleNodeCount L = None"
    using that by (simp add: highWaterMark_def)
  moreover have "prevVisibleNodeCount (fst (setTransitionPermission E (L, G))) = None"
    if "visibleNodeCount L = None"
    using that by (simp add: setTransitionPermission_def Let_def)
  ultimately show ?thesis
    using setTransitionPermission_flag [of E L G] jge_NaN_left by auto
qed

theorem first_setTransitionPermission_allows_witness:
  "visibleNodeCount sevenVisible = None \<and> length (visibleNodes sevenVisible) = 7 \<and>
   maxNodes sampleExternals = 5 \<and>
   highWaterMark sevenVisible = NaN \<and>
   transitionAllowed (snd (setTransitionPermission sampleExternals (sevenVisible, sampleD3 False)))"
  using first_setTransitionPermission_allows
    [of "sampleModel ivcTree" "[]" sampleSize sevenVisible sampleExternals "sampleD3 False"]
  by (simp add: sevenVisible_def constructorFields_def sampleExternals_def)

text \<open>
  C4 at its boundary. With three nodes visible before and five now, the higher count is
  five, which is the configured maximum and not above it; the method still takes the
  branch that denies transitions.
\<close>

theorem setTransitionPermission_denies_at_maximum:
  "highWaterMark fiveVisible = ofNat (maxNodes sampleExternals) \<and>
   transitionAllowed (sampleD3 True) \<and>
   \<not> transitionAllowed (snd (setTransitionPermission sampleExternals (fiveVisible, sampleD3 True)))"
  by (simp add: setTransitionPermission_def fiveVisible_def constructorFields_def
      sampleExternals_def sampleD3_def highWaterMark_def ofNat_def jge_def Let_def)

section \<open>Properties of the column widths\<close>

lemma error_is_TypeError: "(e :: error) = TypeError"
  by (cases e) simp

lemma setWidthAt_negative: "k < 0 \<Longrightarrow> setWidthAt colArr k w = Inl TypeError"
  by (simp add: setWidthAt_def)

lemma computeColumnWidths_depth0:
  assumes "getAt (rootNode (model L)) (zoomedElement L) = Some z" and "depth (info z) = 0"
  shows "computeColumnWidths L = Inl TypeError"
  using assms
  by (simp add: computeColumnWidths_def Let_def bindE_def parentColumnIndex_def setWidthAt_def
      error_is_TypeError [of "_ :: error"] split: sum.splits prod.splits)

lemma setWidthAt_length: "setWidthAt colArr k w = Inr colArr' \<Longrightarrow> length colArr' = length colArr"
  by (auto simp: setWidthAt_def split: if_splits)

lemma setWidthAt_nth:
  "setWidthAt colArr k w = Inr colArr' \<Longrightarrow>
   0 \<le> k \<and> nat k < length colArr \<and> width (colArr' ! nat k) = w \<and>
   (\<forall>j. j \<noteq> nat k \<longrightarrow> colArr' ! j = colArr ! j)"
  by (auto simp: setWidthAt_def split: if_splits)

lemma computeColumnWidths_parent_width:
  assumes "computeColumnWidths L = Inr L'"
    and "getAt (rootNode (model L)) (zoomedElement L) = Some z"
  shows "0 < depth (info z) \<and> depth (info z) - 1 < length (cols L') \<and>
         (greatestDepth L' \<noteq> depth (info z) - 1 \<longrightarrow>
            width (cols L' ! (depth (info z) - 1)) = parentNodeWidth (layoutSize L))"
proof -
  from assms obtain cols1 gd lw cols2 cols3 where
    a: "setWidthAt cols1 (parentColumnIndex z) (parentNodeWidth (layoutSize L)) = Inr cols2"
    and b: "setWidthAt cols2 (int gd) lw = Inr cols3"
    and c: "cols L' = cols3" "greatestDepth L' = gd"
    by (auto simp: computeColumnWidths_def Let_def bindE_def split: sum.splits prod.splits)
  from setWidthAt_nth [OF a] setWidthAt_nth [OF b] setWidthAt_length [OF a] setWidthAt_length [OF b] c
  show ?thesis
    by (auto simp: parentColumnIndex_def nat_diff_distrib)
qed

text \<open>
  C10. The parent width is assigned at index \<open>zoomedElement.depth - 1\<close> whenever the steps
  before the assignment succeed. For a zoomed element of depth \<open>0\<close> the index is \<open>-1\<close>, which
  is no index of the column array: the assignment yields no column array at all (the
  element read there is undefined and setting its width throws), and so does
  \<open>_computeColumnWidths\<close>; no column receives the parent width. When
  \<open>_computeColumnWidths\<close> returns, the depth is positive and column \<open>depth - 1\<close> holds the
  parent width, unless the later assignment of the last column width hits the same index.
\<close>

theorem parent_width_index_at_depth_zero:
  "parentColumnIndex z = int (depth (info z)) - 1 \<and>
   (depth (info z) = 0 \<longrightarrow>
      parentColumnIndex z = - 1 \<and> \<not> 0 \<le> parentColumnIndex z \<and>
      setWidthAt colArr (parentColumnIndex z) w = Inl TypeError \<and>
      (getAt (rootNode (model L)) (zoomedElement L) = Some z \<longrightarrow>
         computeColumnWidths L = Inl TypeError)) \<and>
   (computeColumnWidths L = Inr L' \<and> getAt (rootNode (model L)) (zoomedElement L) = Some z \<longrightarrow>
      0 < depth (info z) \<and> depth (info z) - 1 < length (cols L') \<and>
      (greatestDepth L' \<noteq> depth (info z) - 1 \<longrightarrow>
         width (cols L' ! (depth (info z) - 1)) = parentNodeWidth (layoutSize L)))"
  using computeColumnWidths_depth0 [of L z] computeColumnWidths_parent_width [of L L' z]
    setWidthAt_negative [of "parentColumnIndex z" colArr w]
  by (auto simp: parentColumnIndex_def)

theorem parent_width_index_at_depth_zero_witness:
  "depth (info depthZeroTree) = 0 \<and>
   (case beforeColumns depthZeroTree [] of
      Inl e \<Rightarrow> False
    | Inr L \<Rightarrow>
        getAt (rootNode (model L)) (zoomedElement L) = Some (rootNode (model L)) \<and>
        parentColumnIndex (rootNode (model L)) = - 1 \<and>
        setWidthAt (cols L) (parentColumnIndex (rootNode (model L))) (Fin 40) = Inl TypeError \<and>
        computeColumnWidths L = Inl TypeError) \<and>
   (case beforeColumns collapsedTree [0] of
      Inl e \<Rightarrow> False
    | Inr L \<Rightarrow>
        (case computeColumnWidths L of
           Inl e \<Rightarrow> False
         | Inr L' \<Rightarrow> greatestDepth L' = 2 \<and> width (cols L' ! 1) = Fin 40))"
proof -
  obtain L0 where l0: "beforeColumns depthZeroTree [] = Inr L0"
    and z0: "getAt (rootNode (model L0)) (zoomedElement L0) = Some (rootNode (model L0))"
    and d0: "depth (info (rootNode (model L0))) = 0"
  proof -
    have "case beforeColumns depthZeroTree [] of Inl e \<Rightarrow> False
          | Inr L \<Rightarrow> zoomedElement L = [] \<and> depth (info (rootNode (model L))) = 0"
      by code_simp
    then show ?thesis
      using that by (auto split: sum.splits)
  qed
  obtain L1 L2 where l1: "beforeColumns collapsedTree [0] = Inr L1"
    and l2: "computeColumnWidths L1 = Inr L2"
    and z1: "getAt (rootNode (model L1)) (zoomedElement L1) \<noteq> None"
    and g2: "greatestDepth L2 = 2"
    and p1: "parentNodeWidth (layoutSize L1) = Fin 40"
    and dz: "depth (info (the (getAt (rootNode (model L1)) (zoomedElement L1)))) = 2"
  proof -
    have "case beforeColumns collapsedTree [0] of Inl e \<Rightarrow> False
          | Inr L \<Rightarrow> getAt (rootNode (model L)) (zoomedElement L) \<noteq> None \<and>
              parentNodeWidth (layoutSize L) = Fin 40 \<and>
              depth (info (the (getAt (rootNode (model L)) (zoomedElement L)))) = 2 \<and>
              (case computeColumnWidths L of Inl e \<Rightarrow> False | Inr L' \<Rightarrow> greatestDepth L' = 2)"
      by code_simp
    then show ?thesis
      using that by (auto split: sum.splits)
  qed
  from z1 obtain z where z: "getAt (rootNode (model L1)) (zoomedElement L1) = Some z"
    by auto
  have "depth (info depthZeroTree) = 0"
    by (simp add: depthZeroTree_def mkNode_def)
  moreover have "width (cols L2 ! 1) = Fin 40"
    using parent_width_index_at_depth_zero [of z "[]" "Fin 0" L1 L2] l2 z g2 p1 dz by simp
  moreover have "parentColumnIndex (rootNode (model L0)) = - 1 \<and>
        setWidthAt (cols L0) (parentColumnIndex (rootNode (model L0))) (Fin 40) = Inl TypeError \<and>
        computeColumnWidths L0 = Inl TypeError"
    using parent_width_index_at_depth_zero [of "rootNode (model L0)" "cols L0" "Fin 40" L0 L2] z0 d0
    by auto
  ultimately show ?thesis
    using l0 l1 l2 z0 g2 by (auto simp: setWidthAt_def)
qed

lemma setColumnLocationsFrom_inv:
  "setColumnLocationsFrom md d st = Inr st' \<Longrightarrow>
   length (snd st') = length (snd st) \<and> map width (snd st') = map width (snd st) \<and>
   (\<forall>k. d \<le> k \<and> k \<le> md \<longrightarrow>
      location (snd st' ! k) = foldl jadd (fst st) (map width (take (k - d) (drop d (snd st))))) \<and>
   (\<forall>k. k < d \<longrightarrow> snd st' ! k = snd st ! k) \<and>
   fst st' = foldl jadd (fst st) (map width (take (Suc md - d) (drop d (snd st)))) \<and>
   (d \<le> md \<longrightarrow> md < length (snd st))"
proof (induction md d st rule: setColumnLocationsFrom.induct)
  case (1 md d st)
  show ?case
  proof (cases "d \<le> md")
    case False
    with "1.prems" show ?thesis by auto
  next
    case True
    with "1.prems" obtain c where c: "lookup (snd st) d = Some c"
      by (auto split: option.splits)
    then have dl: "d < length (snd st)" and cd: "c = snd st ! d"
      by (auto simp: lookup_def split: if_splits)
    let ?st1 = "(jadd (fst st) (width c), (snd st)[d := c\<lparr>location := fst st\<rparr>])"
    from "1.prems" True c have r: "setColumnLocationsFrom md (Suc d) ?st1 = Inr st'"
      by simp
    note ih = "1.IH" [OF True c r]
    have w1: "map width (snd ?st1) = map width (snd st)"
      using dl cd by (simp add: map_update list_update_same_conv)
    have dr: "drop d (snd st) = c # drop (Suc d) (snd st)"
      using dl cd by (simp add: Cons_nth_drop_Suc)
    have dr1: "drop (Suc d) (snd ?st1) = drop (Suc d) (snd st)"
      by simp
    have loc: "location (snd st' ! k) = foldl jadd (fst st) (map width (take (k - d) (drop d (snd st))))"
      if "d \<le> k" "k \<le> md" for k
    proof (cases "k = d")
      case True
      with ih dl show ?thesis by simp
    next
      case False
      with that have "Suc d \<le> k" by simp
      with ih that have "location (snd st' ! k) =
          foldl jadd (fst ?st1) (map width (take (k - Suc d) (drop (Suc d) (snd ?st1))))"
        by blast
      moreover have "k - d = Suc (k - Suc d)" using \<open>Suc d \<le> k\<close> by simp
      ultimately show ?thesis
        using dr by (simp del: drop_Suc)
    qed
    have tot: "fst st' = foldl jadd (fst st) (map width (take (Suc md - d) (drop d (snd st))))"
    proof -
      have "Suc md - d = Suc (Suc md - Suc d)" using True by simp
      with ih dr show ?thesis by (simp del: drop_Suc)
    qed
    have low: "snd st' ! k = snd st ! k" if "k < d" for k
      using ih that by simp
    have "md < length (snd st)"
    proof (cases "Suc d \<le> md")
      case True with ih show ?thesis by simp
    next
      case False with \<open>d \<le> md\<close> dl show ?thesis by simp
    qed
    with ih w1 loc tot low show ?thesis by simp
  qed
qed


lemma setColumnLocationsFrom_succeeds:
  "md < length (snd st) \<Longrightarrow> \<exists>st'. setColumnLocationsFrom md d st = Inr st'"
proof (induction md d st rule: setColumnLocationsFrom.induct)
  case (1 md d st)
  show ?case
  proof (cases "d \<le> md")
    case False
    then show ?thesis by simp
  next
    case True
    with "1.prems" have c: "lookup (snd st) d = Some (snd st ! d)"
      by (simp add: lookup_def)
    from "1.IH" [OF True c] "1.prems" True c show ?thesis
      by simp
  qed
qed

lemma setColumnWidthsEach_length:
  assumes "\<forall>c \<in> set cs. \<forall>st c' st'. setColumnWidthsFromWidestText sz zl c st = Inr (c', st')
             \<longrightarrow> length (fst st') = length (fst st)"
    and "setColumnWidthsEach sz zl cs st = Inr (cs', st')"
  shows "length (fst st') = length (fst st)"
  using assms
proof (induction cs arbitrary: st cs' st')
  case Nil
  then show ?case by simp
next
  case (Cons c cs)
  from Cons.prems(2) obtain c1 st1 cs1 where
    h: "setColumnWidthsFromWidestText sz zl c st = Inr (c1, st1)"
    and t: "setColumnWidthsEach sz zl cs st1 = Inr (cs1, st')"
    by (auto simp: bindE_def split: sum.splits)
  from Cons.prems(1) h have "length (fst st1) = length (fst st)"
    by (meson list.set_intros(1))
  moreover from Cons.IH [OF _ t] Cons.prems(1) have "length (fst st') = length (fst st1)"
    by (meson list.set_intros(2))
  ultimately show ?case by simp
qed

lemma setColumnWidths_length:
  "setColumnWidthsFromWidestText sz zl n st = Inr (n', st') \<Longrightarrow> length (fst st') = length (fst st)"
proof (induction n arbitrary: st n' st')
  case (Node i d t p cs)
  obtain colArr leafArr gd where st: "st = (colArr, leafArr, gd)"
    by (cases st) auto
  show ?case
  proof (cases "\<not> hidden d \<and> cs \<noteq> [] \<and> \<not> minimized d")
    case False
    with Node.prems st show ?thesis
      by (auto simp: Let_def split: if_splits)
  next
    case True
    with Node.prems st obtain c w cs' where
      "setColumnWidthsEach sz zl cs (colArr[depth i := c\<lparr>width := w\<rparr>], leafArr, max gd (depth i))
         = Inr (cs', st')"
      by (auto simp: Let_def bindE_def split: option.splits sum.splits)
    from setColumnWidthsEach_length [OF _ this] Node.IH have "length (fst st') = length colArr"
      by fastforce
    with st show ?thesis by simp
  qed
qed
lemma cumWidth_Suc:
  assumes "1 \<le> d" and "d < length colArr"
  shows "cumWidth colArr (Suc d) = jadd (cumWidth colArr d) (width (colArr ! d))"
proof -
  have "d - 1 < length (drop 1 colArr)"
    using assms by simp
  then have "take (Suc (d - 1)) (drop 1 colArr) = take (d - 1) (drop 1 colArr) @ [drop 1 colArr ! (d - 1)]"
    by (rule take_Suc_conv_app_nth)
  moreover have "drop 1 colArr ! (d - 1) = colArr ! d"
    using assms by simp
  moreover have "Suc d - 1 = Suc (d - 1)"
    using assms by simp
  ultimately show ?thesis
    by (simp add: cumWidth_def)
qed

lemma nonneg_jadd: "nonneg a \<Longrightarrow> nonneg b \<Longrightarrow> nonneg (jadd a b) \<and> jle a (jadd a b)"
  by (cases a; cases b) (simp_all add: nonneg_def)

lemma nonneg_cumWidth:
  assumes "\<forall>k. 1 \<le> k \<and> k < d \<longrightarrow> nonneg (width (colArr ! k))" and "d \<le> length colArr"
  shows "nonneg (cumWidth colArr d)"
  using assms
proof (induction d)
  case 0
  then show ?case by (simp add: cumWidth_def nonneg_def)
next
  case (Suc d)
  show ?case
  proof (cases "d = 0")
    case True
    then show ?thesis by (simp add: cumWidth_def nonneg_def)
  next
    case False
    with Suc.prems have "nonneg (cumWidth colArr d)" and "nonneg (width (colArr ! d))"
      using Suc.IH by auto
    moreover have "cumWidth colArr (Suc d) = jadd (cumWidth colArr d) (width (colArr ! d))"
      using False Suc.prems by (simp add: cumWidth_Suc)
    ultimately show ?thesis
      using nonneg_jadd by simp
  qed
qed

lemma setColumnLocations_result:
  assumes "md < length colArr"
  shows "\<exists>w colArr'. setColumnLocations md colArr = Inr (w, colArr') \<and>
           length colArr' = length colArr \<and> map width colArr' = map width colArr \<and>
           (\<forall>d. 1 \<le> d \<and> d \<le> md \<longrightarrow> location (colArr' ! d) = cumWidth colArr' d) \<and>
           w = cumWidth colArr' (Suc md)"
proof -
  from setColumnLocationsFrom_succeeds [of md "(Fin 0, colArr)" 1] assms
  obtain st' where r: "setColumnLocationsFrom md 1 (Fin 0, colArr) = Inr st'"
    by auto
  note inv = setColumnLocationsFrom_inv [OF r]
  have w: "map width (snd st') = map width colArr"
    using inv by simp
  have cw: "cumWidth (snd st') d = cumWidth colArr d" for d
    unfolding cumWidth_def using w by (simp add: drop_map [symmetric] take_map [symmetric])
  have "location (snd st' ! d) = cumWidth (snd st') d" if "1 \<le> d" "d \<le> md" for d
    using inv that cw [of d] by (simp add: cumWidth_def)
  moreover have "fst st' = cumWidth (snd st') (Suc md)"
    using inv cw [of "Suc md"] by (simp add: cumWidth_def)
  ultimately show ?thesis
    using r inv w by (cases st') (auto simp: setColumnLocations_def)
qed

lemma computeColumnWidths_length:
  assumes "computeColumnWidths L = Inr L1"
  shows "length (cols L1) = Suc (maxDepth (model L)) \<and> maxDepth (model L1) = maxDepth (model L) \<and>
         layoutSize L1 = layoutSize L"
proof -
  from assms obtain z z' cols1 leaf1 gd s lw cols2 cols3 where
    t: "setColumnWidthsFromWidestText (layoutSize L) (numLeaves (draw z)) z
          (replicate (maxDepth (model L) + 1) \<lparr>width = Fin 0, location = Fin 0\<rparr>,
           replicate (maxDepth (model L) + 1) (Some (Fin 0)), 0) = Inr (z', cols1, leaf1, gd)"
    and a: "setWidthAt cols1 (parentColumnIndex z) (parentNodeWidth (layoutSize L)) = Inr cols2"
    and b: "setWidthAt cols2 (int gd) lw = Inr cols3"
    and c: "cols L1 = cols3" "maxDepth (model L1) = maxDepth (model L)" "layoutSize L1 = layoutSize L"
    by (auto simp: computeColumnWidths_def Let_def bindE_def split: option.splits sum.splits prod.splits)
  from setColumnWidths_length [OF t] setWidthAt_length [OF a] setWidthAt_length [OF b] c
  show ?thesis by simp
qed

text \<open>
  C2. When \<open>_computeColumnWidths\<close> has returned, \<open>_setColumnLocations\<close> returns too; it leaves
  the widths as they are, and for all adjacent depths \<open>d\<close> and \<open>d + 1\<close> within \<open>1..maxDepth\<close>
  the location of column \<open>d + 1\<close> is exactly the location of column \<open>d\<close> plus its width.
  The location of column \<open>d\<close> is the sum of the widths of the columns \<open>1, ..., d - 1\<close>, and
  the tree width is the sum of all of them. Where the widths are not negative (and not
  \<open>NaN\<close>), the locations do not decrease with the depth.
\<close>

theorem column_locations_cumulative:
  assumes "computeColumnWidths L = Inr L1"
  shows "\<exists>L2. setColumnLocationsLayout L1 = Inr L2 \<and>
           map width (cols L2) = map width (cols L1) \<and>
           (\<forall>d. 1 \<le> d \<and> d < maxDepth (model L) \<longrightarrow>
              location (cols L2 ! Suc d) = jadd (location (cols L2 ! d)) (width (cols L2 ! d))) \<and>
           (\<forall>d. 1 \<le> d \<and> d \<le> maxDepth (model L) \<longrightarrow>
              location (cols L2 ! d) = cumWidth (cols L2) d) \<and>
           partitionTreeWidth (layoutSize L2) = cumWidth (cols L2) (Suc (maxDepth (model L))) \<and>
           ((\<forall>d. 1 \<le> d \<and> d \<le> maxDepth (model L) \<longrightarrow> nonneg (width (cols L1 ! d))) \<longrightarrow>
            (\<forall>d. 1 \<le> d \<and> d < maxDepth (model L) \<longrightarrow>
               jle (location (cols L2 ! d)) (location (cols L2 ! Suc d))))"
proof -
  let ?md = "maxDepth (model L)"
  note len = computeColumnWidths_length [OF assms]
  then have "maxDepth (model L1) < length (cols L1)" by simp
  from setColumnLocations_result [OF this] len obtain w colArr' where
    r: "setColumnLocations ?md (cols L1) = Inr (w, colArr')"
    and l: "length colArr' = Suc ?md"
    and wd: "map width colArr' = map width (cols L1)"
    and loc: "\<forall>d. 1 \<le> d \<and> d \<le> ?md \<longrightarrow> location (colArr' ! d) = cumWidth colArr' d"
    and tot: "w = cumWidth colArr' (Suc ?md)"
    by auto
  let ?L2 = "L1\<lparr>layoutSize := (layoutSize L1)\<lparr>partitionTreeWidth := w\<rparr>, cols := colArr'\<rparr>"
  have res: "setColumnLocationsLayout L1 = Inr ?L2"
    using r len by (simp add: setColumnLocationsLayout_def bindE_def)
  have adj: "location (colArr' ! Suc d) = jadd (location (colArr' ! d)) (width (colArr' ! d))"
    if "1 \<le> d" "d < ?md" for d
    using that loc l cumWidth_Suc [of d colArr'] by simp
  have wnth: "width (colArr' ! d) = width (cols L1 ! d)" if "d \<le> ?md" for d
  proof -
    have "map width colArr' ! d = map width (cols L1) ! d" using wd by simp
    with that l len show ?thesis by simp
  qed
  have mono: "jle (location (colArr' ! d)) (location (colArr' ! Suc d))"
    if nn: "\<forall>d. 1 \<le> d \<and> d \<le> ?md \<longrightarrow> nonneg (width (cols L1 ! d))" and d: "1 \<le> d" "d < ?md" for d
  proof -
    have "\<forall>k. 1 \<le> k \<and> k < d \<longrightarrow> nonneg (width (colArr' ! k))"
      using nn d wnth by simp
    then have "nonneg (cumWidth colArr' d)"
      using nonneg_cumWidth [of d colArr'] d l by simp
    moreover have "nonneg (width (colArr' ! d))"
      using nn d wnth by simp
    ultimately show ?thesis
      using nonneg_jadd adj [OF d] loc d by simp
  qed
  show ?thesis
    using res wd adj loc tot mono by (intro exI [of _ ?L2]) simp
qed
theorem column_locations_cumulative_witness:
  "case beforeColumns collapsedTree [] of
     Inl e \<Rightarrow> False
   | Inr L \<Rightarrow>
       (case computeColumnWidths L of
          Inl e \<Rightarrow> False
        | Inr L1 \<Rightarrow>
            maxDepth (model L) = 3 \<and> map width (cols L1) = [Fin 40, Fin 48, Fin 24, Fin 0] \<and>
            (\<exists>L2. setColumnLocationsLayout L1 = Inr L2 \<and>
               location (cols L2 ! 2) = jadd (location (cols L2 ! 1)) (width (cols L2 ! 1)) \<and>
               location (cols L2 ! 3) = jadd (location (cols L2 ! 2)) (width (cols L2 ! 2)) \<and>
               jle (location (cols L2 ! 1)) (location (cols L2 ! 2)) \<and>
               jle (location (cols L2 ! 2)) (location (cols L2 ! 3)) \<and>
               partitionTreeWidth (layoutSize L2) = cumWidth (cols L2) 4))"
proof -
  have e: "case beforeColumns collapsedTree [] of
     Inl e \<Rightarrow> False
   | Inr L \<Rightarrow>
       (case computeColumnWidths L of
          Inl e \<Rightarrow> False
        | Inr L1 \<Rightarrow>
            maxDepth (model L) = 3 \<and> map width (cols L1) = [Fin 40, Fin 48, Fin 24, Fin 0])"
    by code_simp
  then obtain L L1 where l: "beforeColumns collapsedTree [] = Inr L"
    and l1: "computeColumnWidths L = Inr L1"
    and md: "maxDepth (model L) = 3"
    and w: "map width (cols L1) = [Fin 40, Fin 48, Fin 24, Fin 0]"
    by (auto split: sum.splits)
  have "length (map width (cols L1)) = 4"
    unfolding w by simp
  then have len: "length (cols L1) = 4"
    by simp
  have nth: "width (cols L1 ! d) = [Fin 40, Fin 48, Fin 24, Fin 0] ! d" if "d < 4" for d
    using w len that by (metis nth_map)
  have nn: "\<forall>d. 1 \<le> d \<and> d \<le> maxDepth (model L) \<longrightarrow> nonneg (width (cols L1 ! d))"
  proof (intro allI impI)
    fix d assume "1 \<le> d \<and> d \<le> maxDepth (model L)"
    with md have "d = 1 \<or> d = 2 \<or> d = 3" by auto
    then show "nonneg (width (cols L1 ! d))"
      using nth by (auto simp: nonneg_def)
  qed
  from column_locations_cumulative [OF l1] obtain L2 where
    r: "setColumnLocationsLayout L1 = Inr L2"
    and adj: "\<forall>d. 1 \<le> d \<and> d < maxDepth (model L) \<longrightarrow>
              location (cols L2 ! Suc d) = jadd (location (cols L2 ! d)) (width (cols L2 ! d))"
    and tot: "partitionTreeWidth (layoutSize L2) = cumWidth (cols L2) (Suc (maxDepth (model L)))"
    and mono: "(\<forall>d. 1 \<le> d \<and> d \<le> maxDepth (model L) \<longrightarrow> nonneg (width (cols L1 ! d))) \<longrightarrow>
            (\<forall>d. 1 \<le> d \<and> d < maxDepth (model L) \<longrightarrow>
               jle (location (cols L2 ! d)) (location (cols L2 ! Suc d)))"
    by blast
  from adj md have a1: "location (cols L2 ! 2) = jadd (location (cols L2 ! 1)) (width (cols L2 ! 1))"
    and a2: "location (cols L2 ! 3) = jadd (location (cols L2 ! 2)) (width (cols L2 ! 2))"
    by (simp_all add: numeral_3_eq_3 numeral_2_eq_2)
  from mono nn md have m1: "jle (location (cols L2 ! 1)) (location (cols L2 ! 2))"
    and m2: "jle (location (cols L2 ! 2)) (location (cols L2 ! 3))"
    by (simp_all add: numeral_3_eq_3 numeral_2_eq_2)
  from tot md have "partitionTreeWidth (layoutSize L2) = cumWidth (cols L2) 4"
    by simp
  with l l1 md w r a1 a2 m1 m2 show ?thesis
    by simp
qed

section \<open>Properties of the normalized positions\<close>

lemma isVisible_preserveDims [simp]:
  "isVisible E (Node i (preserveDims d) t p cs) = isVisible E (Node i d t p cs)"
  by (simp add: isVisible_def preserveDims_def flagsOf_def hasChildren_def)

lemma computeNormalizedPositions_dims:
  assumes "computeNormalizedPositions E L anc zp n leafCounter isChildOfZoomed emp st = Inr (n', st')"
  shows "\<exists>work. placeNode E L anc
            (Node (info n) (preserveDims (draw n)) (textOpacity n) (prevTextOpacity n) (children n))
            leafCounter work = Inr (dims (draw n')) \<and>
          (work = emp \<or> work = None \<and> emp = None) \<and>
          info n' = info n \<and> numLeaves (draw n') = numLeaves (draw n)"
proof (cases n)
  case (Node i d t p cs)
  let ?leaf = "emp = None \<and> (if \<not> isChildOfZoomed then zp = Some [] else isChildOfZoomed) \<and>
      isVisible E (Node i d t p cs) \<and> isVisibleLeaf E (Node i d t p cs)"
  let ?work = "if ?leaf then None else emp"
  from assms Node obtain dm where
    pl: "placeNode E L anc (Node i (preserveDims d) t p cs) leafCounter ?work = Inr dm"
    and n': "dims (draw n') = dm \<and> info n' = i \<and> numLeaves (draw n') = numLeaves d"
    by (auto simp: Let_def bindE_def preserveDims_def split: sum.splits if_splits)
  have "?work = emp \<or> ?work = None \<and> emp = None"
    by auto
  with pl n' Node show ?thesis
    by (intro exI [of _ ?work]) simp
qed

lemma placeNode_leaving:
  assumes "placeNode E L anc n leafCounter work = Inr dm" and "\<not> isVisible E n"
  shows "\<exists>k pc c. parentComponent (info n) = Some k \<and> lookup anc k = Some pc \<and>
           lookup (cols L) (depth (info pc) + 1) = Some c \<and>
           dm = \<lparr>dimX = jdiv (location c) (partitionTreeWidth (layoutSize L)),
                 dimY = dimY (dims (draw pc)), dimWidth = sentinel, dimHeight = sentinel\<rparr>"
  using assms by (auto simp: placeNode_def Let_def split: option.splits)

text \<open>
  C5, as amended. Whenever \<open>_computeNormalizedPositions\<close> returns for a node that is not
  visible, the node has a parent component among its ancestors and its dims are: \<open>x\<close> the
  location of the column at depth \<open>parentComponent.depth + 1\<close> divided by the tree width,
  \<open>y\<close> the \<open>y\<close> of the parent component, and width and height the sentinel \<open>1e-6\<close>, which is
  greater than \<open>0\<close>.
\<close>

theorem leaving_node_dims:
  assumes "computeNormalizedPositions E L anc zp n leafCounter isChildOfZoomed emp st = Inr (n', st')"
    and "\<not> isVisible E n"
  shows "\<exists>k pc c. parentComponent (info n) = Some k \<and> lookup anc k = Some pc \<and>
           lookup (cols L) (depth (info pc) + 1) = Some c \<and>
           dims (draw n') =
             \<lparr>dimX = jdiv (location c) (partitionTreeWidth (layoutSize L)),
              dimY = dimY (dims (draw pc)), dimWidth = sentinel, dimHeight = sentinel\<rparr> \<and>
           sentinel = Fin (1 / 1000000) \<and> jlt (Fin 0) sentinel \<and> sentinel \<noteq> Fin 0"
proof -
  from computeNormalizedPositions_dims [OF assms(1)] obtain work where
    pl: "placeNode E L anc
           (Node (info n) (preserveDims (draw n)) (textOpacity n) (prevTextOpacity n) (children n))
           leafCounter work = Inr (dims (draw n'))"
    by blast
  have "\<not> isVisible E
          (Node (info n) (preserveDims (draw n)) (textOpacity n) (prevTextOpacity n) (children n))"
    using assms(2) by (cases n) simp
  from placeNode_leaving [OF pl this] show ?thesis
    by (auto simp: sentinel_def)
qed

theorem leaving_node_dims_witness:
  "\<not> isVisible sampleExternals hiddenInput \<and>
   (case computeNormalizedPositions sampleExternals placedLayout [placedComponent] None
           hiddenInput 0 True None ([], []) of
      Inl e \<Rightarrow> False
    | Inr (n', st') \<Rightarrow>
        dims (draw n') =
          \<lparr>dimX = Fin (4 / 5), dimY = Fin 0, dimWidth = Fin (1 / 1000000),
           dimHeight = Fin (1 / 1000000)\<rparr>)"
proof -
  have v: "\<not> isVisible sampleExternals hiddenInput"
    by (simp add: isVisible_def sampleExternals_def hiddenInput_def mkNode_def flagsOf_def
        freshDraw_def)
  have "case computeNormalizedPositions sampleExternals placedLayout [placedComponent] None
           hiddenInput 0 True None ([], []) of Inl e \<Rightarrow> False | Inr r \<Rightarrow> True"
    by code_simp
  then obtain n' st' where
    r: "computeNormalizedPositions sampleExternals placedLayout [placedComponent] None
           hiddenInput 0 True None ([], []) = Inr (n', st')"
    by (auto split: sum.splits)
  from leaving_node_dims [OF r v] obtain k pc c where
    "parentComponent (info hiddenInput) = Some k" "lookup [placedComponent] k = Some pc"
    "lookup (cols placedLayout) (depth (info pc) + 1) = Some c"
    "dims (draw n') =
       \<lparr>dimX = jdiv (location c) (partitionTreeWidth (layoutSize placedLayout)),
        dimY = dimY (dims (draw pc)), dimWidth = sentinel, dimHeight = sentinel\<rparr>"
    by blast
  then have "dims (draw n') =
          \<lparr>dimX = Fin (4 / 5), dimY = Fin 0, dimWidth = Fin (1 / 1000000),
           dimHeight = Fin (1 / 1000000)\<rparr>"
    by (auto simp: hiddenInput_def mkNode_def lookup_def placedComponent_def placedLayout_def
        sampleLayout_def constructorFields_def sampleSize_def sentinel_def freshDraw_def)
  with v r show ?thesis
    by simp
qed

text \<open>
  C5 as stated fails when the parent component's column \<open>x\<close> is read as the \<open>x\<close> of the
  column the parent component stands in: after a pass over a component with a hidden
  input, the input's \<open>x\<close> is neither the \<open>x\<close> of the component nor the normalized location of
  the component's column, but that of the next column.
\<close>

theorem leaving_node_x_counterexample:
  "case layoutPass sampleExternals (sampleLayout hiddenInputTree []) of
     Inl e \<Rightarrow> False
   | Inr L \<Rightarrow>
       (case (getAt (rootNode (model L)) [0, 0], getAt (rootNode (model L)) [0]) of
          (Some v, Some pc) \<Rightarrow>
            \<not> isVisible sampleExternals v \<and> parentComponent (info v) = Some 0 \<and>
            dimX (dims (draw v)) \<noteq> dimX (dims (draw pc)) \<and>
            dimX (dims (draw v)) \<noteq>
              jdiv (location (cols L ! depth (info pc))) (partitionTreeWidth (layoutSize L)) \<and>
            dimX (dims (draw v)) =
              jdiv (location (cols L ! (depth (info pc) + 1))) (partitionTreeWidth (layoutSize L))
        | _ \<Rightarrow> False)"
  by code_simp

lemma computeLeaves_minimized:
  assumes "\<not> hidden (draw (computeLeaves E M n))" and "\<not> filtered (draw (computeLeaves E M n))"
    and "minimized (draw (computeLeaves E M n))"
  shows "numLeaves (draw (computeLeaves E M n)) = 1"
proof (cases n)
  case (Node i d t p cs)
  with assms show ?thesis
    by (auto simp: Let_def minimize_def minimizeIfLarge_def split: if_splits)
qed

lemma placeNode_visible_height:
  assumes "placeNode E L anc n leafCounter None = Inr dm" and "isVisible E n"
  shows "dimHeight dm = jdiv (ofNat (numLeaves (draw n))) (ofNat (rootLeaves L)) \<and>
         dimY dm = jdiv (ofNat leafCounter) (ofNat (rootLeaves L))"
  using assms by (auto simp: placeNode_def Let_def split: option.splits)

section \<open>Properties of the scale values\<close>

lemma computeLeaves_info [simp]: "info (computeLeaves E M n) = info n"
  by (cases n) (simp add: Let_def)

lemma updateTextWidths_info [simp]: "info (fst (updateTextWidths E sz n cache)) = info n"
  by (cases n) (simp add: Let_def split: prod.splits)

lemma setColumnWidths_info:
  "setColumnWidthsFromWidestText sz zl n st = Inr (n', st') \<Longrightarrow> info n' = info n"
  by (cases n; cases st)
    (auto simp: Let_def bindE_def split: if_splits option.splits sum.splits)

lemma computeColumnWidths_root:
  assumes "computeColumnWidths L = Inr L1" and "zoomedElement L = []"
  shows "info (rootNode (model L1)) = info (rootNode (model L)) \<and> zoomedElement L1 = []"
proof -
  from assms obtain z' st' where
    "setColumnWidthsFromWidestText (layoutSize L) (numLeaves (draw (rootNode (model L))))
       (rootNode (model L))
       (replicate (maxDepth (model L) + 1) \<lparr>width = Fin 0, location = Fin 0\<rparr>,
        replicate (maxDepth (model L) + 1) (Some (Fin 0)), 0) = Inr (z', st')"
    and "rootNode (model L1) = z'" "zoomedElement L1 = []"
    by (auto simp: computeColumnWidths_def Let_def bindE_def split: sum.splits prod.splits)
  with setColumnWidths_info show ?thesis
    by metis
qed

lemma jdiv_zero_falsy: "\<not> truthy (jdiv (Fin 0) w)"
  by (cases w) (simp_all add: infOfSign_def)

lemma placeNode_no_ancestors:
  "placeNode E L [] n leafCounter work = Inr dm \<Longrightarrow> isVisible E n"
  by (auto simp: placeNode_def Let_def lookup_def split: option.splits if_splits)

lemma placeNode_visible_x:
  assumes "placeNode E L anc n leafCounter None = Inr dm" and "isVisible E n"
  shows "\<exists>c. lookup (cols L) (depth (info n)) = Some c \<and>
           dimX dm = jdiv (location c) (partitionTreeWidth (layoutSize L))"
  using assms by (auto simp: placeNode_def Let_def split: option.splits)

lemma root_x_falsy:
  assumes "layoutPass E L = Inr L'" and "zoomedElement L = []"
    and "depth (info (rootNode (model L))) = 1"
  shows "\<not> truthy (dimX (dims (draw (rootNode (model L')))))"
proof -
  let ?L0 = "computeLeavesRoot E L"
  from assms(1) obtain La Lb Lc where
    a: "updateTextWidthsZoomed E ?L0 = Inr La"
    and b: "computeColumnWidths La = Inr Lb"
    and c: "setColumnLocationsLayout Lb = Inr Lc"
    and p: "computePositionsRoot E Lc = Inr L'"
    by (auto simp: layoutPass_def bindE_def split: sum.splits)
  from a assms(2) have za: "zoomedElement La = []"
    and ia: "info (rootNode (model La)) = info (rootNode (model L))"
    by (auto simp: updateTextWidthsZoomed_def computeLeavesRoot_def)
  from computeColumnWidths_root [OF b za] ia have zb: "zoomedElement Lb = []"
    and ib: "info (rootNode (model Lb)) = info (rootNode (model L))"
    by simp_all
  from computeColumnWidths_length [OF b] have "maxDepth (model Lb) < length (cols Lb)"
    by simp
  from setColumnLocations_result [OF this] c have zc: "zoomedElement Lc = []"
    and mc: "model Lc = model Lb"
    and lc: "\<forall>d. 1 \<le> d \<and> d \<le> maxDepth (model Lb) \<longrightarrow> location (cols Lc ! d) = cumWidth (cols Lc) d"
    and nc: "length (cols Lc) = length (cols Lb)"
    using zb by (auto simp: setColumnLocationsLayout_def bindE_def)
  from p obtain r st' where
    r: "computeNormalizedPositions E Lc [] (Some (zoomedElement Lc)) (rootNode (model Lc)) 0 False
          None (zoomedNodes Lc, visibleNodes Lc) = Inr (r, st')"
    and r': "rootNode (model L') = r"
    by (auto simp: computePositionsRoot_def bindE_def split: sum.splits)
  let ?n = "rootNode (model Lc)"
  let ?m = "Node (info ?n) (preserveDims (draw ?n)) (textOpacity ?n) (prevTextOpacity ?n) (children ?n)"
  from computeNormalizedPositions_dims [OF r]
  have pl: "placeNode E Lc [] ?m 0 None = Inr (dims (draw r))"
    by auto
  have d1: "depth (info ?m) = 1"
    using mc ib assms(3) by simp
  from placeNode_no_ancestors [OF pl] have "isVisible E ?m" .
  from placeNode_visible_x [OF pl this] d1 obtain c where
    c1: "lookup (cols Lc) 1 = Some c"
    and x: "dimX (dims (draw r)) = jdiv (location c) (partitionTreeWidth (layoutSize Lc))"
    by auto
  from c1 have "1 < length (cols Lc)" and cc: "c = cols Lc ! 1"
    by (auto simp: lookup_def split: if_splits)
  with nc computeColumnWidths_length [OF b] have "1 \<le> maxDepth (model Lb)"
    by simp
  with lc cc have "location c = Fin 0"
    by (simp add: cumWidth_def)
  with x r' show ?thesis
    by (simp add: jdiv_zero_falsy)
qed

lemma updateScaleValues_result:
  assumes "scales L = Some S" and "transitCoords L = Some C"
    and "getAt (rootNode (model L)) (zoomedElement L) = Some z"
  shows "\<exists>L' S' C'. updateScaleValues L = Inr L' \<and> scales L' = Some S' \<and>
           transitCoords L' = Some C' \<and> firstRun S' = firstRun S \<and>
           prevScaleX (scalesModel S') =
             (if firstRun S then prevScaleX (scalesModel S) else scaleX (scalesModel S)) \<and>
           prevScaleY (scalesModel S') =
             (if firstRun S then prevScaleY (scalesModel S) else scaleY (scalesModel S)) \<and>
           prevTransit C' =
             (if firstRun S then prevTransit C else Some (transitX C, transitY C)) \<and>
           scaleX (scalesModel S') =
             \<lparr>domainOf = (dimX (dims (draw z)), Fin 1),
              rangeOf = (if truthy (dimX (dims (draw z))) then parentNodeWidth (layoutSize L)
                         else Fin 0, partitionTreeWidth (layoutSize L))\<rparr> \<and>
           scaleY (scalesModel S') =
             \<lparr>domainOf = (dimY (dims (draw z)),
                          jadd (dimY (dims (draw z))) (dimHeight (dims (draw z)))),
              rangeOf = (Fin 0, partitionTreeHeight (layoutSize L))\<rparr>"
  using assms
  by (simp add: updateScaleValues_def Let_def preservePreviousScaleValues_def preserveScale_def
      preserveTransit_def)

section \<open>Running the pass twice\<close>

lemma relBys_list_all2: "relBys key cs cs' = list_all2 (relBy key) cs cs'"
proof (induction cs arbitrary: cs')
  case Nil
  show ?case by (cases cs') simp_all
next
  case (Cons c cs)
  then show ?case by (cases cs') simp_all
qed

lemma relBy_Node:
  "relBy key (Node i d t p cs) m =
     (info m = i \<and> key (draw m) = key d \<and> list_all2 (relBy key) cs (children m))"
  by (cases m) (auto simp: relBys_list_all2)

lemma relBy_refl: "relBy key n n"
proof (induction n)
  case (Node i d t p cs)
  then have "list_all2 (relBy key) cs cs"
    by (simp add: list_all2_same)
  then show ?case
    by (simp add: relBys_list_all2)
qed

lemma relBy_info: "relBy key n m \<Longrightarrow> info n = info m \<and> key (draw n) = key (draw m)"
  by (cases n; cases m) simp

lemma relBy_children:
  "relBy key n m \<Longrightarrow> list_all2 (relBy key) (children n) (children m)"
  by (cases n; cases m) (simp add: relBys_list_all2)

lemma relBy_weaken:
  assumes "\<And>d d'. key d = key d' \<Longrightarrow> key' d = key' d'"
  shows "relBy key n m \<Longrightarrow> relBy key' n m"
proof (induction n arbitrary: m)
  case (Node i d t p cs)
  from Node.prems have a: "info m = i" "key (draw m) = key d"
    and l: "list_all2 (relBy key) cs (children m)"
    by (simp_all add: relBy_Node)
  from l have "list_all2 (relBy key') cs (children m)"
    by (rule list.rel_mono_strong) (rule Node.IH)
  with a assms [of "draw m" d] show ?case
    by (simp add: relBy_Node)
qed

lemma relBy_getAt:
  "relBy key n m \<Longrightarrow> rel_option (relBy key) (getAt n path) (getAt m path)"
proof (induction path arbitrary: n m)
  case Nil
  then show ?case by simp
next
  case (Cons k ks)
  from relBy_children [OF Cons.prems]
  have l: "list_all2 (relBy key) (children n) (children m)" .
  show ?case
  proof (cases "k < length (children n)")
    case True
    with l have "k < length (children m)" and "relBy key (children n ! k) (children m ! k)"
      by (auto simp: list_all2_conv_all_nth)
    with True Cons.IH show ?thesis
      by (simp add: lookup_def)
  next
    case False
    with l have "\<not> k < length (children m)"
      by (auto simp: list_all2_conv_all_nth)
    with False show ?thesis
      by (simp add: lookup_def)
  qed
qed

lemma relBy_putAt:
  "relBy key n m \<Longrightarrow> relBy key v w \<Longrightarrow> relBy key (putAt n path v) (putAt m path w)"
proof (induction path arbitrary: n m)
  case Nil
  then show ?case by simp
next
  case (Cons k ks)
  obtain i d t p cs where n: "n = Node i d t p cs"
    by (cases n)
  obtain i' d' t' p' cs' where m: "m = Node i' d' t' p' cs'"
    by (cases m)
  from Cons.prems(1) n m have a: "i = i'" "key d = key d'" and l: "list_all2 (relBy key) cs cs'"
    by (simp_all add: relBys_list_all2)
  show ?case
  proof (cases "k < length cs")
    case True
    with l have k': "k < length cs'" and "relBy key (cs ! k) (cs' ! k)"
      by (auto simp: list_all2_conv_all_nth)
    with Cons.IH Cons.prems(2) have "relBy key (putAt (cs ! k) ks v) (putAt (cs' ! k) ks w)"
      by simp
    with l have "list_all2 (relBy key) (cs[k := putAt (cs ! k) ks v]) (cs'[k := putAt (cs' ! k) ks w])"
      by (simp add: list_all2_update_cong)
    with True k' a n m show ?thesis
      by (simp add: relBys_list_all2)
  next
    case False
    with l have "\<not> k < length cs'"
      by (auto simp: list_all2_conv_all_nth)
    with False a l n m show ?thesis
      by (simp add: relBys_list_all2)
  qed
qed

lemma getAt_putAt:
  "getAt n path = Some z \<Longrightarrow> getAt (putAt n path v) path = Some v"
proof (induction path arbitrary: n)
  case Nil
  then show ?case by simp
next
  case (Cons k ks)
  then show ?case
    by (cases n) (auto simp: lookup_def split: if_splits)
qed

lemma putAt_getAt: "getAt n path = Some z \<Longrightarrow> putAt n path z = n"
proof (induction path arbitrary: n)
  case Nil
  then show ?case by simp
next
  case (Cons k ks)
  then show ?case
    by (cases n) (auto simp: lookup_def list_update_same_conv split: if_splits)
qed

lemma computeLeaves_model:
  "nodeIds M' = nodeIds M \<Longrightarrow> depthCount M' = depthCount M \<Longrightarrow>
   computeLeaves E M' n = computeLeaves E M n"
  by (induction n) (simp add: Let_def cong: map_cong)

lemma minimized_update_same: "minimized x \<Longrightarrow> x\<lparr>minimized := True\<rparr> = x"
  by simp

lemma precollapse_cases:
  "precollapse E M i k x = x \<or> precollapse E M i k x = x\<lparr>minimized := True\<rparr>"
  by (simp add: precollapse_def minimize_def minimizeIfLarge_def)

lemma precollapse_minimized: "minimized x \<Longrightarrow> precollapse E M i k x = x"
  using precollapse_cases [of E M i k x] minimized_update_same [of x] by auto

lemma precollapse_fields:
  "hidden (precollapse E M i k x) = hidden x \<and> filtered (precollapse E M i k x) = filtered x \<and>
   manuallyExpanded (precollapse E M i k x) = manuallyExpanded x \<and>
   numLeaves (precollapse E M i k x) = numLeaves x \<and>
   nameWidthPx (precollapse E M i k x) = nameWidthPx x \<and>
   dims (precollapse E M i k x) = dims x \<and> prevDims (precollapse E M i k x) = prevDims x"
  using precollapse_cases [of E M i k x] by auto

lemma precollapse_flags:
  "flagsOf x = flagsOf y \<Longrightarrow>
   minimized (precollapse E M i k x) = minimized (precollapse E M i k y)"
  by (auto simp: precollapse_def minimize_def minimizeIfLarge_def flagsOf_def)

lemma computeLeaves_step:
  "computeLeaves E M (Node i x t p ys) =
     (if hidden x \<or> filtered x then Node i (x\<lparr>numLeaves := 0\<rparr>) t p ys
      else if ys \<noteq> [] \<and> \<not> minimized (precollapse E M i (length ys) (x\<lparr>numLeaves := 0\<rparr>))
        then Node i ((precollapse E M i (length ys) (x\<lparr>numLeaves := 0\<rparr>))\<lparr>numLeaves :=
               foldl (\<lambda>acc c. acc + numLeaves (draw c)) 0 (map (computeLeaves E M) ys)\<rparr>) t p
               (map (computeLeaves E M) ys)
      else Node i ((precollapse E M i (length ys) (x\<lparr>numLeaves := 0\<rparr>))\<lparr>numLeaves := 1\<rparr>) t p ys)"
  by (simp add: precollapse_def Let_def)

lemma computeLeaves_idem: "computeLeaves E M (computeLeaves E M n) = computeLeaves E M n"
proof (induction n)
  case (Node i d t p cs)
  have ch: "map (computeLeaves E M \<circ> computeLeaves E M) cs = map (computeLeaves E M) cs"
    using Node.IH by simp
  let ?d0 = "d\<lparr>numLeaves := 0\<rparr>"
  let ?f = "precollapse E M i (length cs)"
  show ?case
  proof (cases "hidden d \<or> filtered d")
    case True
    then show ?thesis by auto
  next
    case False
    show ?thesis
    proof (cases "cs \<noteq> [] \<and> \<not> minimized (?f ?d0)")
      case True
      with precollapse_cases [of E M i "length cs" ?d0] have d1: "?f ?d0 = ?d0"
        by auto
      let ?cs = "map (computeLeaves E M) cs"
      let ?n1 = "Node i (?d0\<lparr>numLeaves := foldl (\<lambda>acc c. acc + numLeaves (draw c)) 0 ?cs\<rparr>) t p ?cs"
      have first: "computeLeaves E M (Node i d t p cs) = ?n1"
        by (subst computeLeaves_step) (use False True d1 in simp_all)
      have "computeLeaves E M ?n1 = ?n1"
        by (subst computeLeaves_step) (use False True d1 in \<open>simp_all add: ch\<close>)
      with first show ?thesis by simp
    next
      case br: False
      let ?e = "?f ?d0"
      let ?n1 = "Node i (?e\<lparr>numLeaves := 1\<rparr>) t p cs"
      note F3 = precollapse_fields [of E M i "length cs" ?d0]
      have first: "computeLeaves E M (Node i d t p cs) = ?n1"
        by (subst computeLeaves_step) (use False br in auto)
      have e0: "?e\<lparr>numLeaves := 0\<rparr> = ?e"
        using F3 by simp
      have fe: "?f ?e = ?e"
        using precollapse_cases [of E M i "length cs" ?d0]
          precollapse_minimized [of ?e E M i "length cs"] by auto
      have "computeLeaves E M ?n1 = ?n1"
        by (subst computeLeaves_step) (use False br F3 in \<open>auto simp: e0 fe\<close>)
      with first show ?thesis by simp
    qed
  qed
qed

lemma leafSum_relBy:
  "list_all2 (relBy keyL) cs cs' \<Longrightarrow> leafSum cs = leafSum cs'"
proof (induction rule: list_all2_induct)
  case Nil
  then show ?case by simp
next
  case (Cons c cs c' cs')
  from relBy_info [OF Cons.hyps(1)] have "numLeaves (draw c) = numLeaves (draw c')"
    by (simp add: keyL_def)
  with Cons.IH show ?case
    by (simp add: leafSum_def)
qed

lemma computeLeaves_fixed_transfer:
  "relBy keyL u v \<Longrightarrow> computeLeaves E M v = v \<Longrightarrow> computeLeaves E M u = u"
proof (induction u arbitrary: v)
  case (Node i d t p cs)
  obtain i' d' t' p' cs' where v: "v = Node i' d' t' p' cs'"
    by (cases v)
  from Node.prems(1) v have i: "i' = i" and k: "keyL d = keyL d'"
    and l: "list_all2 (relBy keyL) cs cs'"
    by (simp_all add: relBys_list_all2)
  from l have len: "length cs' = length cs"
    by (simp add: list_all2_lengthD)
  from k have fl: "flagsOf d = flagsOf d'" and nl: "numLeaves d = numLeaves d'"
    by (simp_all add: keyL_def)
  then have hf: "hidden d = hidden d'" "filtered d = filtered d'" "minimized d = minimized d'"
    by (simp_all add: flagsOf_def)
  let ?f = "precollapse E M i (length cs)"
  let ?d0 = "d\<lparr>numLeaves := 0\<rparr>"
  let ?d0' = "d'\<lparr>numLeaves := 0\<rparr>"
  have mm: "minimized (?f ?d0) = minimized (?f ?d0')"
    using fl by (intro precollapse_flags) (simp add: flagsOf_def)
  note fx = Node.prems(2) [unfolded v i computeLeaves_step len]
  show ?case
  proof (cases "hidden d \<or> filtered d")
    case True
    with fx hf have "d'\<lparr>numLeaves := 0\<rparr> = d'"
      by auto
    then have "numLeaves d' = 0"
      by (metis draw.select_convs(5) draw.surjective draw.update_convs(5))
    with nl have "d\<lparr>numLeaves := 0\<rparr> = d" by simp
    with True show ?thesis
      by (subst computeLeaves_step) simp
  next
    case False
    show ?thesis
    proof (cases "cs \<noteq> [] \<and> \<not> minimized (?f ?d0)")
      case True
      with len have ne: "cs' \<noteq> []" by auto
      from True fx False hf mm ne have
        dd: "(?f ?d0')\<lparr>numLeaves := foldl (\<lambda>acc c. acc + numLeaves (draw c)) 0 (map (computeLeaves E M) cs')\<rparr> = d'"
        and mc: "map (computeLeaves E M) cs' = cs'"
        by auto
      from mc have fixc: "\<forall>c' \<in> set cs'. computeLeaves E M c' = c'"
        by (simp add: map_idI list.map_ident_strong map_eq_conv [where g = id, simplified])
      have "list_all2 (\<lambda>c c'. computeLeaves E M c = c) cs cs'"
        using l
      proof (rule list.rel_mono_strong)
        fix c c' assume "c \<in> set cs" "c' \<in> set cs'" "relBy keyL c c'"
        with Node.IH fixc show "computeLeaves E M c = c" by blast
      qed
      then have "\<forall>c \<in> set cs. computeLeaves E M c = c"
        by (auto simp: list_all2_conv_all_nth in_set_conv_nth)
      then have mcu: "map (computeLeaves E M) cs = cs"
        by (simp add: map_idI)
      from dd mc have "numLeaves d' = leafSum cs'"
        by (metis draw.select_convs(5) draw.surjective draw.update_convs(5) foldl_leafSum add_0)
      with nl leafSum_relBy [OF l] have s: "numLeaves d = leafSum cs" by simp
      from True precollapse_cases [of E M i "length cs" ?d0] have "?f ?d0 = ?d0" by auto
      with s have "(?f ?d0)\<lparr>numLeaves := leafSum cs\<rparr> = d" by simp
      with True False mcu show ?thesis
        by (subst computeLeaves_step) (simp add: foldl_leafSum)
    next
      case br: False
      with len mm have br': "\<not> (cs' \<noteq> [] \<and> \<not> minimized (?f ?d0'))" by auto
      from fx False hf br' have dd: "(?f ?d0')\<lparr>numLeaves := 1\<rparr> = d'"
        by auto
      then have n1: "numLeaves d' = 1" and md: "minimized d' = minimized (?f ?d0')"
        by (metis draw.select_convs(5) draw.surjective draw.update_convs(5),
            metis draw.select_convs(3) draw.surjective draw.update_convs(5))
      from precollapse_cases [of E M i "length cs" ?d0] nl n1 md mm hf
      have "(?f ?d0)\<lparr>numLeaves := 1\<rparr> = d"
        by auto
      with br False show ?thesis
        by (subst computeLeaves_step) auto
    qed
  qed
qed

lemma updateTextWidths_step:
  "updateTextWidths E sz (Node i d t p cs) cache =
     (if hidden d then (Node i d t p cs, cache)
      else if cs \<noteq> [] \<and> \<not> minimized d
        then (Node i (d\<lparr>nameWidthPx := Some (jadd (fst (getTextWidth E cache (getText i)))
                                       (jmul (Fin 2) (rightTextMargin sz)))\<rparr>) t p
                (fst (updateTextWidthsEach E sz cs (snd (getTextWidth E cache (getText i))))),
              snd (updateTextWidthsEach E sz cs (snd (getTextWidth E cache (getText i)))))
      else (Node i (d\<lparr>nameWidthPx := Some (jadd (fst (getTextWidth E cache (getText i)))
                                       (jmul (Fin 2) (rightTextMargin sz)))\<rparr>) t p cs,
            snd (getTextWidth E cache (getText i))))"
  by (simp add: Let_def split: prod.splits)

lemma updateTextWidthsEach_Cons:
  "updateTextWidthsEach E sz (n # ns) cache =
     (fst (updateTextWidths E sz n cache) #
        fst (updateTextWidthsEach E sz ns (snd (updateTextWidths E sz n cache))),
      snd (updateTextWidthsEach E sz ns (snd (updateTextWidths E sz n cache))))"
  by (simp split: prod.splits)

lemma updateTextWidthsEach_length:
  "length (fst (updateTextWidthsEach E sz ns cache)) = length ns"
  by (induction ns arbitrary: cache) (simp_all add: updateTextWidthsEach_Cons del: updateTextWidthsEach.simps(2))

lemma updateTextWidthsEach_rel:
  assumes "\<forall>n \<in> set ns. \<forall>cache. relBy keyL (fst (updateTextWidths E sz n cache)) n"
  shows "list_all2 (relBy keyL) (fst (updateTextWidthsEach E sz ns cache)) ns"
  using assms
  by (induction ns arbitrary: cache)
    (simp_all add: updateTextWidthsEach_Cons del: updateTextWidthsEach.simps(2))

lemma keyL_nameWidthPx [simp]: "keyL (d\<lparr>nameWidthPx := w\<rparr>) = keyL d"
  by (simp add: keyL_def flagsOf_def)

lemma keyW_dims [simp]:
  "keyW (d\<lparr>dims := x\<rparr>) = keyW d" "keyW (d\<lparr>prevDims := x\<rparr>) = keyW d"
  by (simp_all add: keyW_def keyL_def flagsOf_def)

lemma updateTextWidths_rel: "relBy keyL (fst (updateTextWidths E sz n cache)) n"
proof (induction n arbitrary: cache)
  case (Node i d t p cs)
  have "list_all2 (relBy keyL) (fst (updateTextWidthsEach E sz cs c)) cs" for c
    using Node.IH by (intro updateTextWidthsEach_rel) simp
  moreover have "list_all2 (relBy keyL) cs cs"
    by (simp add: list_all2_same relBy_refl)
  ultimately show ?case
    by (simp add: updateTextWidths_step relBys_list_all2 del: updateTextWidths.simps)
qed

lemma updateTextWidthsEach_fixed_transfer:
  assumes "\<forall>u \<in> set us. \<forall>v c c2. relBy keyW u v \<longrightarrow> updateTextWidths E sz v c = (v, c2)
             \<longrightarrow> updateTextWidths E sz u c = (u, c2)"
    and "list_all2 (relBy keyW) us vs"
    and "updateTextWidthsEach E sz vs c = (vs, c2)"
  shows "updateTextWidthsEach E sz us c = (us, c2)"
  using assms(2,1,3)
proof (induction arbitrary: c rule: list_all2_induct)
  case Nil
  then show ?case by simp
next
  case (Cons u us v vs)
  from Cons.prems(2) have
    h: "updateTextWidths E sz v c = (v, snd (updateTextWidths E sz v c))"
    and t: "updateTextWidthsEach E sz vs (snd (updateTextWidths E sz v c)) = (vs, c2)"
    by (simp_all add: updateTextWidthsEach_Cons prod_eq_iff del: updateTextWidthsEach.simps(2))
  from Cons.prems(1) Cons.hyps(1) h
  have hu: "updateTextWidths E sz u c = (u, snd (updateTextWidths E sz v c))"
    by (meson list.set_intros(1))
  from Cons.IH [OF _ t] Cons.prems(1)
  have "updateTextWidthsEach E sz us (snd (updateTextWidths E sz v c)) = (us, c2)"
    by (meson list.set_intros(2))
  with hu show ?case
    by (simp add: updateTextWidthsEach_Cons del: updateTextWidthsEach.simps(2))
qed

lemma draw_nameWidthPx_same: "nameWidthPx d = w \<Longrightarrow> d\<lparr>nameWidthPx := w\<rparr> = d"
  by auto

lemma updateTextWidths_fixed_transfer:
  "relBy keyW u v \<Longrightarrow> updateTextWidths E sz v c = (v, c2) \<Longrightarrow>
   updateTextWidths E sz u c = (u, c2)"
proof (induction u arbitrary: v c c2)
  case (Node i d t p cs)
  obtain i' d' t' p' cs' where v: "v = Node i' d' t' p' cs'"
    by (cases v)
  from Node.prems(1) v have i: "i' = i" and k: "keyW d = keyW d'"
    and l: "list_all2 (relBy keyW) cs cs'"
    by (simp_all add: relBys_list_all2)
  from l have len: "length cs' = length cs"
    by (simp add: list_all2_lengthD)
  from k have hf: "hidden d = hidden d'" "minimized d = minimized d'"
    and nw: "nameWidthPx d = nameWidthPx d'"
    by (simp_all add: keyW_def keyL_def flagsOf_def)
  note fx = Node.prems(2) [unfolded v i updateTextWidths_step]
  let ?w = "Some (jadd (fst (getTextWidth E c (getText i))) (jmul (Fin 2) (rightTextMargin sz)))"
  let ?c1 = "snd (getTextWidth E c (getText i))"
  show ?case
  proof (cases "hidden d")
    case True
    with fx hf show ?thesis
      by (simp add: updateTextWidths_step del: updateTextWidths.simps)
  next
    case False
    from fx False hf have "d'\<lparr>nameWidthPx := ?w\<rparr> = d'"
      by (auto split: if_splits)
    then have "nameWidthPx d' = ?w"
      by (metis draw.select_convs(6) draw.surjective draw.update_convs(6))
    with nw have dw: "d\<lparr>nameWidthPx := ?w\<rparr> = d"
      by (simp add: draw_nameWidthPx_same)
    show ?thesis
    proof (cases "cs \<noteq> [] \<and> \<not> minimized d")
      case True
      with len hf have "cs' \<noteq> [] \<and> \<not> minimized d'" by auto
      with fx False hf have "updateTextWidthsEach E sz cs' ?c1 = (cs', c2)"
        by (simp add: prod_eq_iff)
      from updateTextWidthsEach_fixed_transfer [OF _ l this] Node.IH
      have "updateTextWidthsEach E sz cs ?c1 = (cs, c2)"
        by blast
      with True False dw show ?thesis
        by (simp add: updateTextWidths_step del: updateTextWidths.simps)
    next
      case br: False
      with len hf have "\<not> (cs' \<noteq> [] \<and> \<not> minimized d')" by auto
      with fx False hf have "?c1 = c2"
        by (auto split: if_splits)
      with br False dw show ?thesis
        by (auto simp add: updateTextWidths_step simp del: updateTextWidths.simps)
    qed
  qed
qed

lemma updateTextWidthsEach_idem:
  assumes "\<forall>n \<in> set ns. \<forall>c. updateTextWidths E sz (fst (updateTextWidths E sz n c)) c
             = updateTextWidths E sz n c"
  shows "updateTextWidthsEach E sz (fst (updateTextWidthsEach E sz ns c)) c
           = updateTextWidthsEach E sz ns c"
  using assms
proof (induction ns arbitrary: c)
  case Nil
  then show ?case by simp
next
  case (Cons n ns)
  let ?r = "updateTextWidths E sz n c"
  have h: "updateTextWidths E sz (fst ?r) c = ?r"
    using Cons.prems by simp
  have t: "updateTextWidthsEach E sz (fst (updateTextWidthsEach E sz ns (snd ?r))) (snd ?r)
           = updateTextWidthsEach E sz ns (snd ?r)"
    using Cons.IH Cons.prems by simp
  show ?case
    by (simp add: updateTextWidthsEach_Cons h t del: updateTextWidthsEach.simps(2))
qed

lemma updateTextWidths_idem:
  "updateTextWidths E sz (fst (updateTextWidths E sz n c)) c = updateTextWidths E sz n c"
proof (induction n arbitrary: c)
  case (Node i d t p cs)
  let ?c1 = "snd (getTextWidth E c (getText i))"
  have e: "updateTextWidthsEach E sz (fst (updateTextWidthsEach E sz cs ?c1)) ?c1
           = updateTextWidthsEach E sz cs ?c1"
    using Node.IH by (intro updateTextWidthsEach_idem) simp
  have ne: "fst (updateTextWidthsEach E sz cs ?c1) \<noteq> []" if "cs \<noteq> []"
    using that updateTextWidthsEach_length [of E sz cs ?c1] by (metis length_0_conv)
  show ?case
    by (simp add: updateTextWidths_step e ne del: updateTextWidths.simps)
qed

lemma setColumnWidths_step:
  "setColumnWidthsFromWidestText sz zl (Node i d t p cs) (colArr, leafArr, gd) =
     (if hidden d then Inr (Node i d t p cs, (colArr, leafArr, gd))
      else if cs \<noteq> [] \<and> \<not> minimized d
        then (case lookup colArr (depth i) of
                None \<Rightarrow> Inl TypeError
              | Some c \<Rightarrow>
                  bindE (setColumnWidthsEach sz zl cs
                          (colArr[depth i := c\<lparr>width := mathMax (width c) (labelWidth sz zl d)\<rparr>],
                           leafArr, max gd (depth i)))
                    (\<lambda>r. Inr (Node i d (Some (labelOpacity sz zl d))
                             (Some (case t of Some v \<Rightarrow> v | None \<Rightarrow> Fin 0)) (fst r), snd r)))
      else if \<not> filtered d
        then Inr (Node i d (Some (labelOpacity sz zl d))
                    (Some (case t of Some v \<Rightarrow> v | None \<Rightarrow> Fin 0)) cs,
                  (colArr,
                   arraySet leafArr (depth i)
                     (mathMax (toNumber (arrayGet leafArr (depth i))) (labelWidth sz zl d)),
                   max gd (depth i)))
      else Inr (Node i d (Some (labelOpacity sz zl d))
                  (Some (case t of Some v \<Rightarrow> v | None \<Rightarrow> Fin 0)) cs,
                (colArr, leafArr, max gd (depth i))))"
  by (simp add: Let_def labelWidth_def labelOpacity_def case_prod_unfold cong: option.case_cong)

lemma setColumnWidthsEach_Cons:
  "setColumnWidthsEach sz zl (n # ns) st =
     bindE (setColumnWidthsFromWidestText sz zl n st)
       (\<lambda>r. bindE (setColumnWidthsEach sz zl ns (snd r))
          (\<lambda>rs. Inr (fst r # fst rs, snd rs)))"
  by (simp add: case_prod_unfold)

lemma outState_Each_Cons:
  "outState (setColumnWidthsEach sz zl (n # ns) st) =
     bindE (outState (setColumnWidthsFromWidestText sz zl n st))
       (\<lambda>st1. outState (setColumnWidthsEach sz zl ns st1))"
  by (simp add: setColumnWidthsEach_Cons outState_def bindE_def
      del: setColumnWidthsEach.simps(2) split: sum.splits)

lemma setColumnWidthsEach_rel:
  assumes "\<forall>n \<in> set ns. \<forall>st n' st'. setColumnWidthsFromWidestText sz zl n st = Inr (n', st')
             \<longrightarrow> relBy key n' n"
    and "setColumnWidthsEach sz zl ns st = Inr (ns', st')"
  shows "list_all2 (relBy key) ns' ns"
  using assms
proof (induction ns arbitrary: st ns' st')
  case Nil
  then show ?case by simp
next
  case (Cons n ns)
  from Cons.prems(2) obtain r rs where
    h: "setColumnWidthsFromWidestText sz zl n st = Inr r"
    and t: "setColumnWidthsEach sz zl ns (snd r) = Inr rs"
    and e: "ns' = fst r # fst rs"
    by (auto simp: setColumnWidthsEach_Cons bindE_def simp del: setColumnWidthsEach.simps(2)
        split: sum.splits)
  from Cons.prems(1) h have "relBy key (fst r) n"
    by (metis list.set_intros(1) prod.collapse)
  moreover from Cons.IH [of "snd r" "fst rs" "snd rs"] t Cons.prems(1)
  have "list_all2 (relBy key) (fst rs) ns"
    by (metis list.set_intros(2) prod.collapse)
  ultimately show ?case
    using e by simp
qed

lemma setColumnWidths_rel:
  "setColumnWidthsFromWidestText sz zl n st = Inr (n', st') \<Longrightarrow> relBy key n' n"
proof (induction n arbitrary: st n' st')
  case (Node i d t p cs)
  obtain colArr leafArr gd where st: "st = (colArr, leafArr, gd)"
    by (cases st) auto
  have same: "list_all2 (relBy key) cs cs"
    by (simp add: list_all2_same relBy_refl)
  note r = Node.prems [unfolded st setColumnWidths_step]
  show ?case
  proof (cases "\<not> hidden d \<and> cs \<noteq> [] \<and> \<not> minimized d")
    case False
    with r same show ?thesis
      by (auto simp: relBys_list_all2 split: if_splits)
  next
    case True
    with r obtain c rs where
      e: "setColumnWidthsEach sz zl cs
            (colArr[depth i := c\<lparr>width := mathMax (width c) (labelWidth sz zl d)\<rparr>], leafArr,
             max gd (depth i)) = Inr rs"
      and n': "n' = Node i d (Some (labelOpacity sz zl d))
                 (Some (case t of Some v \<Rightarrow> v | None \<Rightarrow> Fin 0)) (fst rs)"
      by (auto simp: bindE_def split: option.splits sum.splits)
    from setColumnWidthsEach_rel [of cs sz zl key _ "fst rs" "snd rs"] e Node.IH
    have "list_all2 (relBy key) (fst rs) cs"
      by (metis prod.collapse)
    with n' show ?thesis
      by (simp add: relBys_list_all2)
  qed
qed

lemma setColumnWidthsEach_outState:
  assumes "\<forall>u \<in> set us. \<forall>v st. relBy keyW u v \<longrightarrow>
             outState (setColumnWidthsFromWidestText sz zl u st)
               = outState (setColumnWidthsFromWidestText sz zl v st)"
    and "list_all2 (relBy keyW) us vs"
  shows "outState (setColumnWidthsEach sz zl us st) = outState (setColumnWidthsEach sz zl vs st)"
  using assms(2,1)
proof (induction arbitrary: st rule: list_all2_induct)
  case Nil
  then show ?case by simp
next
  case (Cons u us v vs)
  from Cons.prems Cons.hyps(1)
  have h: "outState (setColumnWidthsFromWidestText sz zl u st)
             = outState (setColumnWidthsFromWidestText sz zl v st)"
    by (meson list.set_intros(1))
  have t: "outState (setColumnWidthsEach sz zl us st1) = outState (setColumnWidthsEach sz zl vs st1)"
    for st1
    using Cons.IH Cons.prems by (meson list.set_intros(2))
  show ?case
    unfolding outState_Each_Cons h t ..
qed

lemma setColumnWidths_outState:
  "relBy keyW u v \<Longrightarrow>
   outState (setColumnWidthsFromWidestText sz zl u st)
     = outState (setColumnWidthsFromWidestText sz zl v st)"
proof (induction u arbitrary: v st)
  case (Node i d t p cs)
  obtain i' d' t' p' cs' where v: "v = Node i' d' t' p' cs'"
    by (cases v)
  obtain colArr leafArr gd where st: "st = (colArr, leafArr, gd)"
    by (cases st) auto
  from Node.prems v have i: "i' = i" and k: "keyW d = keyW d'"
    and l: "list_all2 (relBy keyW) cs cs'"
    by (simp_all add: relBys_list_all2)
  from l have ne: "(cs' = []) = (cs = [])"
    by (auto simp: list_all2_Nil list_all2_Nil2)
  from k have hf: "hidden d' = hidden d" "minimized d' = minimized d" "filtered d' = filtered d"
    and lw: "labelWidth sz zl d' = labelWidth sz zl d"
    by (simp_all add: keyW_def keyL_def flagsOf_def labelWidth_def labelOpacity_def)
  have e: "outState (setColumnWidthsEach sz zl cs s) = outState (setColumnWidthsEach sz zl cs' s)"
    for s
    using Node.IH l by (intro setColumnWidthsEach_outState) auto
  have b: "outState (bindE (setColumnWidthsEach sz zl xs s) (\<lambda>r. Inr (f r, snd r)))
           = outState (setColumnWidthsEach sz zl xs s)" for xs s and f :: "node list \<times> colState \<Rightarrow> node"
    by (simp add: outState_def bindE_def split: sum.splits)
  show ?case
    unfolding v i st setColumnWidths_step hf lw ne
    by (simp add: b e outState_def [of "Inr _"] outState_def [of "Inl _"] split: option.splits)
qed

lemma relBy_trans: "relBy key n m \<Longrightarrow> relBy key m k \<Longrightarrow> relBy key n k"
proof (induction n arbitrary: m k)
  case (Node i d t p cs)
  from Node.prems(1) have a: "info m = i" "key (draw m) = key d"
    and l: "list_all2 (relBy key) cs (children m)"
    by (simp_all add: relBy_Node)
  from relBy_info [OF Node.prems(2)] relBy_children [OF Node.prems(2)]
  have b: "info k = info m" "key (draw k) = key (draw m)"
    and l': "list_all2 (relBy key) (children m) (children k)"
    by simp_all
  have "list_all2 (relBy key) cs (children k)"
    unfolding list_all2_conv_all_nth
  proof (intro conjI allI impI)
    show "length cs = length (children k)"
      using l l' by (simp add: list_all2_lengthD)
  next
    fix j assume j: "j < length cs"
    with l l' have "relBy key (cs ! j) (children m ! j)" "relBy key (children m ! j) (children k ! j)"
      by (simp_all add: list_all2_conv_all_nth)
    with Node.IH [of "cs ! j"] j show "relBy key (cs ! j) (children k ! j)"
      by simp
  qed
  with a b show ?case
    by (simp add: relBy_Node)
qed

lemma keyG_keyW: "keyG d = keyG d' \<Longrightarrow> keyW d = keyW d'"
  by (simp add: keyG_def)

lemma keyW_keyL: "keyW d = keyW d' \<Longrightarrow> keyL d = keyL d'"
  by (simp add: keyW_def)

lemma simPs_nth:
  "simPs us vs =
     (length us = length vs \<and>
      (\<forall>j < length us. if skipped (us ! j) then relBy keyG (us ! j) (vs ! j)
                        else simP (us ! j) (vs ! j)))"
proof (induction us arbitrary: vs)
  case Nil
  show ?case by (cases vs) simp_all
next
  case (Cons u us)
  show ?case
  proof (cases vs)
    case Nil
    then show ?thesis by simp
  next
    case (Cons v vs')
    with Cons.IH [of vs'] show ?thesis
      by (auto simp: nth_Cons split: nat.splits)
  qed
qed

lemma simP_Node:
  "simP (Node i d t p cs) m = (info m = i \<and> keyW (draw m) = keyW d \<and> simPs cs (children m))"
  by (cases m) auto

lemma simP_relBy: "simP u v \<Longrightarrow> relBy keyW u v"
proof (induction u arbitrary: v)
  case (Node i d t p cs)
  from Node.prems have a: "info v = i" "keyW (draw v) = keyW d" and s: "simPs cs (children v)"
    by (simp_all add: simP_Node)
  have "list_all2 (relBy keyW) cs (children v)"
    unfolding list_all2_conv_all_nth
  proof (intro conjI allI impI)
    show "length cs = length (children v)"
      using s by (simp add: simPs_nth)
  next
    fix j assume j: "j < length cs"
    show "relBy keyW (cs ! j) (children v ! j)"
    proof (cases "skipped (cs ! j)")
      case True
      with s j have "relBy keyG (cs ! j) (children v ! j)"
        by (simp add: simPs_nth)
      then show ?thesis
        by (rule relBy_weaken [rotated]) (rule keyG_keyW)
    next
      case False
      with s j have "simP (cs ! j) (children v ! j)"
        by (simp add: simPs_nth)
      with Node.IH [of "cs ! j"] j show ?thesis
        by simp
    qed
  qed
  with a show ?case
    by (simp add: relBy_Node)
qed

lemma skipped_relBy: "relBy keyW u v \<Longrightarrow> skipped u = skipped v"
  using relBy_info [of keyW u v] by (auto simp: skipped_def keyW_def keyL_def flagsOf_def)

lemma simP_compose: "relBy keyG w v' \<Longrightarrow> simP v' v \<Longrightarrow> simP w v"
proof (induction w arbitrary: v' v)
  case (Node i d t p cs)
  obtain i' d' t' p' cs' where v': "v' = Node i' d' t' p' cs'"
    by (cases v')
  from Node.prems(1) have i: "i' = i" and kg: "keyG d = keyG d'"
    and l: "list_all2 (relBy keyG) cs cs'"
    unfolding v' by (simp_all add: relBys_list_all2)
  from Node.prems(2) have b: "info v = i'" "keyW (draw v) = keyW d'"
    and s: "simPs cs' (children v)"
    unfolding v' by (simp_all add: simP_Node)
  have "simPs cs (children v)"
    unfolding simPs_nth
  proof (intro conjI allI impI)
    show "length cs = length (children v)"
      using l s by (simp add: simPs_nth list_all2_lengthD)
  next
    fix j assume j: "j < length cs"
    with l have r: "relBy keyG (cs ! j) (cs' ! j)" and j': "j < length cs'"
      by (simp_all add: list_all2_conv_all_nth)
    from r have "relBy keyW (cs ! j) (cs' ! j)"
      by (rule relBy_weaken [rotated]) (rule keyG_keyW)
    then have sk: "skipped (cs ! j) = skipped (cs' ! j)"
      by (rule skipped_relBy)
    show "if skipped (cs ! j) then relBy keyG (cs ! j) (children v ! j)
          else simP (cs ! j) (children v ! j)"
    proof (cases "skipped (cs ! j)")
      case True
      with sk s j' have "relBy keyG (cs' ! j) (children v ! j)"
        by (simp add: simPs_nth)
      with r have "relBy keyG (cs ! j) (children v ! j)"
        by (rule relBy_trans)
      with True show ?thesis by simp
    next
      case False
      with sk s j' have "simP (cs' ! j) (children v ! j)"
        by (simp add: simPs_nth)
      with r have "simP (cs ! j) (children v ! j)"
        by (rule Node.IH [OF nth_mem [OF j]])
      with False show ?thesis by simp
    qed
  qed
  moreover from kg have "keyW d = keyW d'"
    by (rule keyG_keyW)
  ultimately show ?case
    unfolding simP_Node using b i by simp
qed

lemma bindE_Inr: "bindE r f = Inr y \<Longrightarrow> \<exists>x. r = Inr x \<and> f x = Inr y"
  by (cases r) (simp_all add: bindE_def)

lemma computeNormalizedPositions_step:
  "computeNormalizedPositions E L anc zp (Node i d t p cs) leafCounter isChildOfZoomed emp st =
     bindE (placeNode E L anc (Node i (preserveDims d) t p cs) leafCounter
              (if becomesLeaf E zp isChildOfZoomed emp (Node i d t p cs) then None else emp))
       (\<lambda>dm.
          if cs \<noteq> []
          then bindE (positionChildren E L (Node i ((preserveDims d)\<lparr>dims := dm\<rparr>) t p cs # anc) zp 0 cs
                       leafCounter (childOfZoomed zp isChildOfZoomed)
                       (if becomesLeaf E zp isChildOfZoomed emp (Node i d t p cs)
                        then Some (Node i ((preserveDims d)\<lparr>dims := dm\<rparr>) t p cs) else emp)
                       (listsAfter E zp isChildOfZoomed emp (Node i d t p cs) st))
                 (\<lambda>r. Inr (Node i ((preserveDims d)\<lparr>dims := dm\<rparr>) t p (fst r), snd r))
          else Inr (Node i ((preserveDims d)\<lparr>dims := dm\<rparr>) t p cs,
                    listsAfter E zp isChildOfZoomed emp (Node i d t p cs) st))"
  by (simp add: Let_def becomesLeaf_def entersView_def childOfZoomed_def listsAfter_def
      case_prod_unfold cong: if_cong)

lemma positionChildren_Cons:
  "positionChildren E L anc zp k (c # cs) leafCounter isChild emp st =
     (if \<not> skipped c
      then bindE (computeNormalizedPositions E L anc (childPath zp k) c leafCounter isChild emp st)
             (\<lambda>r. bindE (positionChildren E L anc zp (Suc k) cs
                           (if emp = None then leafCounter + numLeaves (draw (fst r)) else leafCounter)
                           isChild emp (snd r))
                     (\<lambda>rs. Inr (fst r # fst rs, snd rs)))
      else bindE (positionChildren E L anc zp (Suc k) cs leafCounter isChild emp st)
             (\<lambda>rs. Inr (c # fst rs, snd rs)))"
  by (simp add: skipped_def case_prod_unfold)

lemma keyG_placed [simp]: "keyG ((preserveDims d)\<lparr>dims := dm\<rparr>) = (keyW d, dm)"
  by (simp add: keyG_def preserveDims_def)

lemma keyW_preserveDims [simp]: "keyW (preserveDims d) = keyW d"
  by (simp add: preserveDims_def)

lemma keyW_placed [simp]: "keyW ((preserveDims d)\<lparr>dims := dm\<rparr>) = keyW d"
  by (simp add: preserveDims_def)

lemma simP_skipped: "simP u v \<Longrightarrow> skipped u = skipped v"
  by (rule skipped_relBy) (rule simP_relBy)

lemma positionChildren_simPs:
  assumes "\<forall>c \<in> set cs. \<forall>anc zp leafCounter isChild emp st r.
             computeNormalizedPositions E L anc zp c leafCounter isChild emp st = Inr r
             \<longrightarrow> simP (fst r) c"
    and "positionChildren E L anc zp k cs leafCounter isChild emp st = Inr rs"
  shows "simPs (fst rs) cs"
  using assms
proof (induction cs arbitrary: k leafCounter st rs)
  case Nil
  then show ?case by auto
next
  case (Cons c cs)
  note r = Cons.prems(2) [unfolded positionChildren_Cons]
  show ?case
  proof (cases "skipped c")
    case True
    with r have "bindE (positionChildren E L anc zp (Suc k) cs leafCounter isChild emp st)
             (\<lambda>rs. Inr (c # fst rs, snd rs)) = Inr rs"
      by simp
    from bindE_Inr [OF this] obtain rt where
      t: "positionChildren E L anc zp (Suc k) cs leafCounter isChild emp st = Inr rt"
      and e: "fst rs = c # fst rt"
      by auto
    from Cons.IH [OF _ t] Cons.prems(1) have "simPs (fst rt) cs"
      by (meson list.set_intros(2))
    with e True show ?thesis
      by (simp add: relBy_refl)
  next
    case False
    with r have "bindE (computeNormalizedPositions E L anc (childPath zp k) c leafCounter isChild emp st)
             (\<lambda>r. bindE (positionChildren E L anc zp (Suc k) cs
                           (if emp = None then leafCounter + numLeaves (draw (fst r)) else leafCounter)
                           isChild emp (snd r))
                     (\<lambda>rs. Inr (fst r # fst rs, snd rs))) = Inr rs"
      by simp
    from bindE_Inr [OF this] obtain r1 where
      h: "computeNormalizedPositions E L anc (childPath zp k) c leafCounter isChild emp st = Inr r1"
      and "bindE (positionChildren E L anc zp (Suc k) cs
                           (if emp = None then leafCounter + numLeaves (draw (fst r1)) else leafCounter)
                           isChild emp (snd r1))
                     (\<lambda>rs. Inr (fst r1 # fst rs, snd rs)) = Inr rs"
      by auto
    from bindE_Inr [OF this(2)] obtain rt where
      t: "positionChildren E L anc zp (Suc k) cs
                (if emp = None then leafCounter + numLeaves (draw (fst r1)) else leafCounter)
                isChild emp (snd r1) = Inr rt"
      and e: "fst rs = fst r1 # fst rt"
      by auto
    from Cons.prems(1) h have s: "simP (fst r1) c"
      by (meson list.set_intros(1))
    from Cons.IH [OF _ t] Cons.prems(1) have "simPs (fst rt) cs"
      by (meson list.set_intros(2))
    with e s False simP_skipped [OF s] show ?thesis
      by simp
  qed
qed

lemma simPs_refl_keyG: "simPs cs cs' \<Longrightarrow> length cs = length cs'"
  by (simp add: simPs_nth)

lemma simP_refl: "simP n n"
proof (induction n)
  case (Node i d t p cs)
  have "simPs cs cs"
    unfolding simPs_nth using Node.IH by (auto simp: relBy_refl)
  then show ?case by simp
qed

lemma computeNormalizedPositions_simP:
  "computeNormalizedPositions E L anc zp n leafCounter isChild emp st = Inr r \<Longrightarrow>
   simP (fst r) n"
proof (induction n arbitrary: anc zp leafCounter isChild emp st r)
  case (Node i d t p cs)
  note r = Node.prems [unfolded computeNormalizedPositions_step]
  from bindE_Inr [OF r] obtain dm where
    pl: "placeNode E L anc (Node i (preserveDims d) t p cs) leafCounter
              (if becomesLeaf E zp isChild emp (Node i d t p cs) then None else emp) = Inr dm"
    and rest: "(if cs \<noteq> []
          then bindE (positionChildren E L (Node i ((preserveDims d)\<lparr>dims := dm\<rparr>) t p cs # anc) zp 0 cs
                       leafCounter (childOfZoomed zp isChild)
                       (if becomesLeaf E zp isChild emp (Node i d t p cs)
                        then Some (Node i ((preserveDims d)\<lparr>dims := dm\<rparr>) t p cs) else emp)
                       (listsAfter E zp isChild emp (Node i d t p cs) st))
                 (\<lambda>r. Inr (Node i ((preserveDims d)\<lparr>dims := dm\<rparr>) t p (fst r), snd r))
          else Inr (Node i ((preserveDims d)\<lparr>dims := dm\<rparr>) t p cs,
                    listsAfter E zp isChild emp (Node i d t p cs) st)) = Inr r"
    by auto
  show ?case
  proof (cases "cs = []")
    case True
    with rest show ?thesis
      by auto
  next
    case False
    with rest have "bindE (positionChildren E L (Node i ((preserveDims d)\<lparr>dims := dm\<rparr>) t p cs # anc) zp 0 cs
                       leafCounter (childOfZoomed zp isChild)
                       (if becomesLeaf E zp isChild emp (Node i d t p cs)
                        then Some (Node i ((preserveDims d)\<lparr>dims := dm\<rparr>) t p cs) else emp)
                       (listsAfter E zp isChild emp (Node i d t p cs) st))
                 (\<lambda>r. Inr (Node i ((preserveDims d)\<lparr>dims := dm\<rparr>) t p (fst r), snd r)) = Inr r"
      by simp
    from bindE_Inr [OF this] obtain rs where
      t: "positionChildren E L (Node i ((preserveDims d)\<lparr>dims := dm\<rparr>) t p cs # anc) zp 0 cs
                       leafCounter (childOfZoomed zp isChild)
                       (if becomesLeaf E zp isChild emp (Node i d t p cs)
                        then Some (Node i ((preserveDims d)\<lparr>dims := dm\<rparr>) t p cs) else emp)
                       (listsAfter E zp isChild emp (Node i d t p cs) st) = Inr rs"
      and n': "fst r = Node i ((preserveDims d)\<lparr>dims := dm\<rparr>) t p (fst rs)"
      by auto
    from positionChildren_simPs [OF _ t] Node.IH have "simPs (fst rs) cs"
      by meson
    with n' show ?thesis
      by simp
  qed
qed

lemma sameOutcome_Inr [simp]: "sameOutcome R (Inr x) (Inr y) = R (fst x) (fst y)"
  by (simp add: sameOutcome_def)

lemma sameOutcome_Inl [simp]: "sameOutcome R (Inl e) (Inl e')"
  by (simp add: sameOutcome_def)

lemma sameOutcome_bind:
  assumes "sameOutcome R r r'"
    and "\<And>x y. r = Inr x \<Longrightarrow> r' = Inr y \<Longrightarrow> R (fst x) (fst y) \<Longrightarrow> sameOutcome S (f x) (g y)"
  shows "sameOutcome S (bindE r f) (bindE r' g)"
  using assms by (cases r; cases r') (simp_all add: bindE_def sameOutcome_def)

lemma viewEq_lookup:
  "list_all2 viewEq anc anc' \<Longrightarrow> rel_option viewEq (lookup anc k) (lookup anc' k)"
  by (auto simp: lookup_def list_all2_conv_all_nth)

lemma rel_option_cases:
  assumes "rel_option R a b"
  obtains "a = None" "b = None" | x y where "a = Some x" "b = Some y" "R x y"
  using assms by (cases a; cases b) simp_all

lemma placeNode_cong:
  assumes c: "sameColumns La Lb" and a: "list_all2 viewEq anc anc'"
    and w: "rel_option viewEq work work'"
    and i: "info nu = info nv" and f: "flagsOf (draw nu) = flagsOf (draw nv)"
    and n: "numLeaves (draw nu) = numLeaves (draw nv)" and h: "hasChildren nu = hasChildren nv"
  shows "placeNode E La anc nu leafCounter work = placeNode E Lb anc' nv leafCounter work'"
proof -
  have vis: "isVisible E nu = isVisible E nv"
    by (simp add: isVisible_def i f h)
  from f have mf: "minimized (draw nu) = minimized (draw nv)" "filtered (draw nu) = filtered (draw nv)"
    by (simp_all add: flagsOf_def)
  from c have cc: "cols La = cols Lb"
    "partitionTreeWidth (layoutSize La) = partitionTreeWidth (layoutSize Lb)"
    "rootLeaves La = rootLeaves Lb"
    by (simp_all add: sameColumns_def)
  show ?thesis
  proof (cases "isVisible E nv")
    case False
    show ?thesis
    proof (cases "parentComponent (info nv)")
      case None
      then show ?thesis
        unfolding placeNode_def vis i using False by simp
    next
      case (Some k)
      from viewEq_lookup [OF a, of k] show ?thesis
      proof (cases rule: rel_option_cases)
        case 1
        then show ?thesis
          unfolding placeNode_def vis i Some using False by (simp add: 1)
      next
        case (2 pc pc')
        from 2(3) have "info pc = info pc'" "dims (draw pc) = dims (draw pc')"
          by (simp_all add: viewEq_def)
        then show ?thesis
          unfolding placeNode_def vis i Some cc using False by (simp add: 2(1,2) Let_def split: option.splits)
      qed
    qed
  next
    case True
    from w show ?thesis
    proof (cases rule: rel_option_cases)
      case 1
      show ?thesis
        unfolding placeNode_def vis i cc mf n h using True by (simp add: 1 Let_def split: option.splits)
    next
      case (2 x y)
      from 2(3) have "info x = info y" "numLeaves (draw x) = numLeaves (draw y)"
        "dims (draw x) = dims (draw y)"
        by (simp_all add: viewEq_def)
      then show ?thesis
        unfolding placeNode_def vis i cc mf n h using True by (simp add: 2(1,2) Let_def split: option.splits)
    qed
  qed
qed

lemma becomesLeaf_cong:
  assumes "info nu = info nv" and "flagsOf (draw nu) = flagsOf (draw nv)"
    and "hasChildren nu = hasChildren nv" and "(emp = None) = (emp' = None)"
  shows "becomesLeaf E zp ic emp nu = becomesLeaf E zp ic emp' nv"
  using assms by (simp add: becomesLeaf_def entersView_def isVisible_def isVisibleLeaf_def)

lemma rel_option_None: "rel_option R a b \<Longrightarrow> (a = None) = (b = None)"
  by (cases a; cases b) simp_all

lemma relBy_keyG_numLeaves: "relBy keyG a b \<Longrightarrow> numLeaves (draw a) = numLeaves (draw b)"
  using relBy_info [of keyG a b] by (simp add: keyG_def keyW_def keyL_def)

lemma positionChildren_rel:
  assumes el: "\<forall>u \<in> set us. \<forall>v anc anc' zp leafCounter ic emp emp' st st'.
             simP u v \<longrightarrow> list_all2 viewEq anc anc' \<longrightarrow> rel_option viewEq emp emp' \<longrightarrow>
             sameOutcome (relBy keyG)
               (computeNormalizedPositions E La anc zp u leafCounter ic emp st)
               (computeNormalizedPositions E Lb anc' zp v leafCounter ic emp' st')"
    and s: "simPs us vs" and a: "list_all2 viewEq anc anc'" and e: "rel_option viewEq emp emp'"
  shows "sameOutcome (list_all2 (relBy keyG))
           (positionChildren E La anc zp k us leafCounter ic emp st)
           (positionChildren E Lb anc' zp k vs leafCounter ic emp' st')"
  using el s
proof (induction us arbitrary: vs k leafCounter st st')
  case Nil
  then show ?case by (cases vs) simp_all
next
  case (Cons u us)
  from Cons.prems(2) obtain v vs' where vs: "vs = v # vs'"
    by (cases vs) simp_all
  from Cons.prems(2) vs have hd: "if skipped u then relBy keyG u v else simP u v"
    and tl: "simPs us vs'"
    by simp_all
  have sk: "skipped u = skipped v"
  proof (cases "skipped u")
    case True
    with hd have "relBy keyW u v"
      by (auto intro: relBy_weaken [rotated] keyG_keyW)
    then show ?thesis by (rule skipped_relBy)
  next
    case False
    with hd show ?thesis by (simp add: simP_skipped)
  qed
  from rel_option_None [OF e] have en: "(emp = None) = (emp' = None)" .
  have rest: "sameOutcome (list_all2 (relBy keyG))
           (positionChildren E La anc zp (Suc k) us lc ic emp s1)
           (positionChildren E Lb anc' zp (Suc k) vs' lc ic emp' s2)" for lc s1 s2
    using Cons.IH [OF _ tl] Cons.prems(1) by (meson list.set_intros(2))
  show ?case
  proof (cases "skipped u")
    case True
    with hd have "relBy keyG u v" by simp
    with True sk show ?thesis
      unfolding vs positionChildren_Cons
      apply simp
      apply (rule sameOutcome_bind [OF rest])
      apply simp
      done
  next
    case False
    with hd have "simP u v" by simp
    with Cons.prems(1) a e have
      h: "sameOutcome (relBy keyG)
               (computeNormalizedPositions E La anc (childPath zp k) u leafCounter ic emp st)
               (computeNormalizedPositions E Lb anc' (childPath zp k) v leafCounter ic emp' st')"
      by (meson list.set_intros(1))
    let ?f = "\<lambda>r. bindE (positionChildren E La anc zp (Suc k) us
                           (if emp = None then leafCounter + numLeaves (draw (fst r)) else leafCounter)
                           ic emp (snd r))
                     (\<lambda>rs. Inr (fst r # fst rs, snd rs))"
    let ?g = "\<lambda>r. bindE (positionChildren E Lb anc' zp (Suc k) vs'
                           (if emp' = None then leafCounter + numLeaves (draw (fst r)) else leafCounter)
                           ic emp' (snd r))
                     (\<lambda>rs. Inr (fst r # fst rs, snd rs))"
    have fg: "sameOutcome (list_all2 (relBy keyG)) (?f x) (?g y)" if r: "relBy keyG (fst x) (fst y)" for x y
    proof -
      from r have "numLeaves (draw (fst x)) = numLeaves (draw (fst y))"
        by (rule relBy_keyG_numLeaves)
      with en have lc: "(if emp = None then leafCounter + numLeaves (draw (fst x)) else leafCounter)
                      = (if emp' = None then leafCounter + numLeaves (draw (fst y)) else leafCounter)"
        by simp
      show ?thesis
        unfolding lc by (rule sameOutcome_bind [OF rest]) (simp add: r)
    qed
    have "sameOutcome (list_all2 (relBy keyG))
            (bindE (computeNormalizedPositions E La anc (childPath zp k) u leafCounter ic emp st) ?f)
            (bindE (computeNormalizedPositions E Lb anc' (childPath zp k) v leafCounter ic emp' st') ?g)"
      by (rule sameOutcome_bind [OF h]) (rule fg)
    with False sk show ?thesis
      unfolding vs positionChildren_Cons by simp
  qed
qed

lemma computeNormalizedPositions_rel:
  "simP u v \<Longrightarrow> sameColumns La Lb \<Longrightarrow> list_all2 viewEq anc anc' \<Longrightarrow> rel_option viewEq emp emp' \<Longrightarrow>
   sameOutcome (relBy keyG)
     (computeNormalizedPositions E La anc zp u leafCounter ic emp st)
     (computeNormalizedPositions E Lb anc' zp v leafCounter ic emp' st')"
proof (induction u arbitrary: v anc anc' zp leafCounter ic emp emp' st st')
  case (Node i d t p cs)
  obtain i' d' t' p' cs' where v: "v = Node i' d' t' p' cs'"
    by (cases v)
  from Node.prems(1) have i: "i' = i" and k: "keyW d = keyW d'" and s: "simPs cs cs'"
    unfolding v by simp_all
  from s have ne: "(cs' = []) = (cs = [])"
    by (auto simp: simPs_nth)
  from k have fl: "flagsOf d = flagsOf d'" and nl: "numLeaves d = numLeaves d'"
    by (simp_all add: keyW_def keyL_def)
  note c = Node.prems(2) and a = Node.prems(3) and e = Node.prems(4)
  have bl: "becomesLeaf E zp ic emp (Node i d t p cs) = becomesLeaf E zp ic emp' (Node i d' t' p' cs')"
    using fl ne rel_option_None [OF e] by (intro becomesLeaf_cong) (simp_all add: hasChildren_def)
  let ?leaf = "becomesLeaf E zp ic emp' (Node i d' t' p' cs')"
  have w: "rel_option viewEq (if ?leaf then None else emp) (if ?leaf then None else emp')"
    using e by simp
  have pl: "placeNode E La anc (Node i (preserveDims d) t p cs) leafCounter (if ?leaf then None else emp)
          = placeNode E Lb anc' (Node i (preserveDims d') t' p' cs') leafCounter (if ?leaf then None else emp')"
    using c a w fl nl ne
    by (intro placeNode_cong) (simp_all add: preserveDims_def flagsOf_def hasChildren_def)
  show ?case
  proof (cases "placeNode E Lb anc' (Node i (preserveDims d') t' p' cs') leafCounter (if ?leaf then None else emp')")
    case (Inl er)
    with pl bl show ?thesis
      unfolding v i computeNormalizedPositions_step by (simp add: bindE_def)
  next
    case (Inr dm)
    let ?nu = "Node i ((preserveDims d)\<lparr>dims := dm\<rparr>) t p cs"
    let ?nv = "Node i ((preserveDims d')\<lparr>dims := dm\<rparr>) t' p' cs'"
    have ve: "viewEq ?nu ?nv"
      using nl by (simp add: viewEq_def preserveDims_def)
    have a': "list_all2 viewEq (?nu # anc) (?nv # anc')"
      using a ve by simp
    define empu where "empu = (if ?leaf then Some ?nu else emp)"
    define empv where "empv = (if ?leaf then Some ?nv else emp')"
    have e': "rel_option viewEq empu empv"
      using e ve by (simp add: empu_def empv_def)
    have ch: "sameOutcome (list_all2 (relBy keyG))
           (positionChildren E La (?nu # anc) zp 0 cs leafCounter (childOfZoomed zp ic) empu s1)
           (positionChildren E Lb (?nv # anc') zp 0 cs' leafCounter (childOfZoomed zp ic) empv s2)"
      for s1 s2
      using Node.IH c
      by (intro positionChildren_rel [OF _ s a' e']) blast
    have lhs: "computeNormalizedPositions E La anc zp (Node i d t p cs) leafCounter ic emp st =
        (if cs \<noteq> []
         then bindE (positionChildren E La (?nu # anc) zp 0 cs leafCounter (childOfZoomed zp ic) empu
                      (listsAfter E zp ic emp (Node i d t p cs) st))
                (\<lambda>r. Inr (Node i ((preserveDims d)\<lparr>dims := dm\<rparr>) t p (fst r), snd r))
         else Inr (?nu, listsAfter E zp ic emp (Node i d t p cs) st))"
      unfolding computeNormalizedPositions_step bl empu_def using pl Inr
      by (simp add: bindE_def)
    have rhs: "computeNormalizedPositions E Lb anc' zp (Node i d' t' p' cs') leafCounter ic emp' st' =
        (if cs' \<noteq> []
         then bindE (positionChildren E Lb (?nv # anc') zp 0 cs' leafCounter (childOfZoomed zp ic) empv
                      (listsAfter E zp ic emp' (Node i d' t' p' cs') st'))
                (\<lambda>r. Inr (Node i ((preserveDims d')\<lparr>dims := dm\<rparr>) t' p' (fst r), snd r))
         else Inr (?nv, listsAfter E zp ic emp' (Node i d' t' p' cs') st'))"
      unfolding computeNormalizedPositions_step empv_def using Inr
      by (simp add: bindE_def)
    show ?thesis
    proof (cases "cs = []")
      case True
      with ne k show ?thesis
        unfolding v i lhs rhs by (simp add: relBys_list_all2)
    next
      case False
      with ne k show ?thesis
        unfolding v i lhs rhs
        apply simp
        apply (rule sameOutcome_bind [OF ch])
        apply (simp add: relBys_list_all2)
        done
    qed
  qed
qed

lemma updateTextWidthsEach_size:
  assumes "\<forall>n \<in> set ns. \<forall>c. updateTextWidths E sz' n c = updateTextWidths E sz n c"
  shows "updateTextWidthsEach E sz' ns c = updateTextWidthsEach E sz ns c"
  using assms
  by (induction ns arbitrary: c)
    (simp_all add: updateTextWidthsEach_Cons del: updateTextWidthsEach.simps(2))

lemma updateTextWidths_size:
  assumes "rightTextMargin sz' = rightTextMargin sz"
  shows "updateTextWidths E sz' n c = updateTextWidths E sz n c"
proof (induction n arbitrary: c)
  case (Node i d t p cs)
  have "updateTextWidthsEach E sz' cs c1 = updateTextWidthsEach E sz cs c1" for c1
    using Node.IH by (intro updateTextWidthsEach_size) simp
  then show ?case
    by (simp add: updateTextWidths_step assms del: updateTextWidths.simps)
qed

lemma setColumnWidthsEach_size:
  assumes "\<forall>n \<in> set ns. \<forall>st. setColumnWidthsFromWidestText sz' zl n st
             = setColumnWidthsFromWidestText sz zl n st"
  shows "setColumnWidthsEach sz' zl ns st = setColumnWidthsEach sz zl ns st"
  using assms
proof (induction ns arbitrary: st)
  case Nil
  show ?case by simp
next
  case (Cons n ns)
  from Cons.prems have h: "setColumnWidthsFromWidestText sz' zl n st
             = setColumnWidthsFromWidestText sz zl n st"
    by (meson list.set_intros(1))
  have t: "setColumnWidthsEach sz' zl ns s = setColumnWidthsEach sz zl ns s" for s
    using Cons.IH Cons.prems by (meson list.set_intros(2))
  show ?case
    unfolding setColumnWidthsEach_Cons h t ..
qed

lemma setColumnWidths_size:
  assumes "n2matrixHeight sz' = n2matrixHeight sz" and "font sz' = font sz"
    and "minColumnWidth sz' = minColumnWidth sz"
  shows "setColumnWidthsFromWidestText sz' zl n st = setColumnWidthsFromWidestText sz zl n st"
proof (induction n arbitrary: st)
  case (Node i d t p cs)
  obtain colArr leafArr gd where st: "st = (colArr, leafArr, gd)"
    by (cases st) auto
  have e: "setColumnWidthsEach sz' zl cs s = setColumnWidthsEach sz zl cs s" for s
    using Node.IH by (intro setColumnWidthsEach_size) simp
  have l: "labelOpacity sz' zl d = labelOpacity sz zl d" "labelWidth sz' zl d = labelWidth sz zl d"
    by (simp_all add: labelOpacity_def labelWidth_def assms)
  show ?case
    unfolding st setColumnWidths_step e l ..
qed

lemma computeColumnWidths_alt:
  "computeColumnWidths L =
     (case getAt (rootNode (model L)) (zoomedElement L) of
        None \<Rightarrow> Inl TypeError
      | Some z \<Rightarrow>
          bindE (setColumnWidthsFromWidestText (layoutSize L) (numLeaves (draw z)) z
                   (columnStart (maxDepth (model L))))
            (\<lambda>r. bindE (finishColumns (layoutSize L) z (snd r))
               (\<lambda>c3. Inr (L\<lparr>model := (model L)\<lparr>rootNode :=
                              putAt (rootNode (model L)) (zoomedElement L) (fst r)\<rparr>,
                            greatestDepth := snd (snd (snd r)), leafWidthsPx := fst (snd (snd r)),
                            cols := c3\<rparr>))))"
  by (simp add: computeColumnWidths_def columnStart_def finishColumns_def Let_def bindE_def
      split: option.splits sum.splits prod.splits)

lemma updateTextWidthsZoomed_Inr:
  assumes "updateTextWidthsZoomed E L = Inr La"
  obtains z where "getAt (rootNode (model L)) (zoomedElement L) = Some z"
    and "La = L\<lparr>model := (model L)\<lparr>rootNode :=
                 putAt (rootNode (model L)) (zoomedElement L)
                   (fst (updateTextWidths E (layoutSize L) z Map.empty))\<rparr>\<rparr>"
  using assms by (auto simp: updateTextWidthsZoomed_def split: option.splits)

lemma computeColumnWidths_Inr:
  assumes "computeColumnWidths L = Inr Lb"
  obtains z r c3 where "getAt (rootNode (model L)) (zoomedElement L) = Some z"
    and "setColumnWidthsFromWidestText (layoutSize L) (numLeaves (draw z)) z
           (columnStart (maxDepth (model L))) = Inr r"
    and "finishColumns (layoutSize L) z (snd r) = Inr c3"
    and "Lb = L\<lparr>model := (model L)\<lparr>rootNode :=
                   putAt (rootNode (model L)) (zoomedElement L) (fst r)\<rparr>,
                 greatestDepth := snd (snd (snd r)), leafWidthsPx := fst (snd (snd r)),
                 cols := c3\<rparr>"
proof -
  from assms obtain z where
    g: "getAt (rootNode (model L)) (zoomedElement L) = Some z"
    unfolding computeColumnWidths_alt by (cases "getAt (rootNode (model L)) (zoomedElement L)") simp_all
  from assms g obtain r where
    r: "setColumnWidthsFromWidestText (layoutSize L) (numLeaves (draw z)) z
           (columnStart (maxDepth (model L))) = Inr r"
    and k: "bindE (finishColumns (layoutSize L) z (snd r))
               (\<lambda>c3. Inr (L\<lparr>model := (model L)\<lparr>rootNode :=
                              putAt (rootNode (model L)) (zoomedElement L) (fst r)\<rparr>,
                            greatestDepth := snd (snd (snd r)), leafWidthsPx := fst (snd (snd r)),
                            cols := c3\<rparr>)) = Inr Lb"
    unfolding computeColumnWidths_alt by (auto dest: bindE_Inr)
  from bindE_Inr [OF k] obtain c3 where "finishColumns (layoutSize L) z (snd r) = Inr c3"
    and "Lb = L\<lparr>model := (model L)\<lparr>rootNode :=
                   putAt (rootNode (model L)) (zoomedElement L) (fst r)\<rparr>,
                 greatestDepth := snd (snd (snd r)), leafWidthsPx := fst (snd (snd r)),
                 cols := c3\<rparr>"
    by auto
  with g r show ?thesis by (rule that)
qed

lemma setColumnLocationsLayout_Inr:
  assumes "setColumnLocationsLayout L = Inr Lc"
  obtains w ca where "setColumnLocations (maxDepth (model L)) (cols L) = Inr (w, ca)"
    and "Lc = L\<lparr>layoutSize := (layoutSize L)\<lparr>partitionTreeWidth := w\<rparr>, cols := ca\<rparr>"
  using assms unfolding setColumnLocationsLayout_def by (auto dest!: bindE_Inr)

lemma computePositionsRoot_Inr:
  assumes "computePositionsRoot E L = Inr Ld"
  obtains r where "computeNormalizedPositions E L [] (Some (zoomedElement L)) (rootNode (model L)) 0
              False None (zoomedNodes L, visibleNodes L) = Inr r"
    and "Ld = L\<lparr>model := (model L)\<lparr>rootNode := fst r\<rparr>, zoomedNodes := fst (snd r),
                 visibleNodes := snd (snd r)\<rparr>"
  using assms unfolding computePositionsRoot_def by (auto dest!: bindE_Inr)

lemma layoutPass_Inr:
  assumes "layoutPass E L = Inr Ld"
  obtains La Lb Lc where "updateTextWidthsZoomed E (computeLeavesRoot E L) = Inr La"
    and "computeColumnWidths La = Inr Lb" and "setColumnLocationsLayout Lb = Inr Lc"
    and "computePositionsRoot E Lc = Inr Ld"
proof -
  from bindE_Inr [OF assms [unfolded layoutPass_def]] obtain La where
    a: "updateTextWidthsZoomed E (computeLeavesRoot E L) = Inr La"
    and k: "bindE (computeColumnWidths La)
              (\<lambda>L2. bindE (setColumnLocationsLayout L2) (\<lambda>L3. computePositionsRoot E L3)) = Inr Ld"
    by auto
  from bindE_Inr [OF k] obtain Lb where b: "computeColumnWidths La = Inr Lb"
    and k2: "bindE (setColumnLocationsLayout Lb) (\<lambda>L3. computePositionsRoot E L3) = Inr Ld"
    by auto
  from bindE_Inr [OF k2] obtain Lc where "setColumnLocationsLayout Lb = Inr Lc"
    and "computePositionsRoot E Lc = Inr Ld"
    by auto
  with a b show ?thesis by (rule that)
qed

lemma relBy_keyG_fields:
  "relBy keyG u v \<Longrightarrow>
   map (\<lambda>n. (numLeaves (draw n), dims (draw n))) (allNodes u)
     = map (\<lambda>n. (numLeaves (draw n), dims (draw n))) (allNodes v)"
proof (induction u arbitrary: v)
  case (Node i d t p cs)
  obtain i' d' t' p' cs' where v: "v = Node i' d' t' p' cs'"
    by (cases v)
  from Node.prems v have k: "keyG d = keyG d'" and l: "list_all2 (relBy keyG) cs cs'"
    by (simp_all add: relBys_list_all2)
  let ?g = "\<lambda>n. (numLeaves (draw n), dims (draw n))"
  from l Node.IH have "map (\<lambda>c. map ?g (allNodes c)) cs = map (\<lambda>c. map ?g (allNodes c)) cs'"
    by (auto simp: list_all2_conv_all_nth intro!: nth_equalityI)
  moreover from k have "numLeaves d = numLeaves d'" "dims d = dims d'"
    by (simp_all add: keyG_def keyW_def keyL_def)
  ultimately show ?case
    unfolding v by (simp add: map_concat comp_def)
qed

lemma finishColumns_cong:
  "info z' = info z \<Longrightarrow> parentNodeWidth sz' = parentNodeWidth sz \<Longrightarrow>
   finishColumns sz' z' st = finishColumns sz z st"
  by (simp add: finishColumns_def parentColumnIndex_def)

lemma outState_Inr: "outState r = Inr s \<Longrightarrow> \<exists>x. r = Inr x \<and> snd x = s"
  by (cases r) (simp_all add: outState_def)

lemma sameOutcome_Inr_right:
  "sameOutcome R r (Inr y) \<Longrightarrow> \<exists>x. r = Inr x \<and> R (fst x) (fst y)"
  by (cases r) (simp_all add: sameOutcome_def)

lemma model_rootNode_same: "rootNode m = t \<Longrightarrow> m\<lparr>rootNode := t\<rparr> = m"
  by auto

text \<open>
  C8. Whenever the pass \<open>_computeLeaves\<close>, \<open>_updateTextWidths\<close>, \<open>_computeColumnWidths\<close>,
  \<open>_setColumnLocations\<close>, \<open>_computeNormalizedPositions\<close> returns, running it again on the
  model it left, with the same zoomed element and the same sizes (on the same layout, or on a
  new one built from them), returns as well and yields the same geometry: the same
  \<open>numLeaves\<close> and the same dims at every node of the tree, and the same column widths and
  locations. Numbers are exact here; the second pass evaluates the same operations on the same
  operands as the first, so the equality does not depend on the rounding.
\<close>

theorem second_pass_same_geometry:
  assumes p: "layoutPass E L = Inr L1"
    and m: "model L' = model L1" and z: "zoomedElement L' = zoomedElement L1"
    and s: "layoutSize L' = layoutSize L1"
  shows "\<exists>L2. layoutPass E L' = Inr L2 \<and> geometry L2 = geometry L1"
proof -
  define M where "M = model L"
  define ze where "ze = zoomedElement L"
  define sz where "sz = layoutSize L"
  define r0 where "r0 = computeLeaves E M (rootNode M)"
  from p obtain La Lb Lc where A: "updateTextWidthsZoomed E (computeLeavesRoot E L) = Inr La"
    and B: "computeColumnWidths La = Inr Lb" and C: "setColumnLocationsLayout Lb = Inr Lc"
    and D: "computePositionsRoot E Lc = Inr L1"
    by (rule layoutPass_Inr)
  \<comment> \<open>the first pass\<close>
  from A obtain zb' where g0: "getAt r0 ze = Some zb'"
    and La: "La = (computeLeavesRoot E L)\<lparr>model := (model (computeLeavesRoot E L))\<lparr>rootNode :=
                 putAt r0 ze (fst (updateTextWidths E sz zb' Map.empty))\<rparr>\<rparr>"
    by (rule updateTextWidthsZoomed_Inr)
      (simp add: computeLeavesRoot_def r0_def M_def ze_def sz_def)
  define zb where "zb = fst (updateTextWidths E sz zb' Map.empty)"
  define rb where "rb = putAt r0 ze zb"
  have fa: "model La = M\<lparr>rootNode := rb\<rparr>" "zoomedElement La = ze" "layoutSize La = sz"
    by (simp_all add: La computeLeavesRoot_def rb_def zb_def M_def ze_def sz_def)
  have gb: "getAt rb ze = Some zb"
    unfolding rb_def using g0 by (rule getAt_putAt)
  from B obtain zz ra c3 where "getAt (rootNode (model La)) (zoomedElement La) = Some zz"
    and "setColumnWidthsFromWidestText (layoutSize La) (numLeaves (draw zz)) zz
           (columnStart (maxDepth (model La))) = Inr ra"
    and "finishColumns (layoutSize La) zz (snd ra) = Inr c3"
    and Lb: "Lb = La\<lparr>model := (model La)\<lparr>rootNode :=
                   putAt (rootNode (model La)) (zoomedElement La) (fst ra)\<rparr>,
                 greatestDepth := snd (snd (snd ra)), leafWidthsPx := fst (snd (snd ra)),
                 cols := c3\<rparr>"
    by (rule computeColumnWidths_Inr)
  then have cw: "setColumnWidthsFromWidestText sz (numLeaves (draw zb)) zb
                   (columnStart (maxDepth M)) = Inr ra"
    and fc: "finishColumns sz zb (snd ra) = Inr c3"
    using gb by (simp_all add: fa)
  define zc where "zc = fst ra"
  define rc where "rc = putAt rb ze zc"
  have fb: "model Lb = M\<lparr>rootNode := rc\<rparr>" "zoomedElement Lb = ze" "layoutSize Lb = sz"
    "cols Lb = c3"
    by (simp_all add: Lb fa rc_def zc_def)
  from C obtain w ca where "setColumnLocations (maxDepth (model Lb)) (cols Lb) = Inr (w, ca)"
    and Lc: "Lc = Lb\<lparr>layoutSize := (layoutSize Lb)\<lparr>partitionTreeWidth := w\<rparr>, cols := ca\<rparr>"
    by (rule setColumnLocationsLayout_Inr)
  then have cl: "setColumnLocations (maxDepth M) c3 = Inr (w, ca)"
    by (simp add: fb)
  have fcc: "model Lc = M\<lparr>rootNode := rc\<rparr>" "zoomedElement Lc = ze"
    "layoutSize Lc = sz\<lparr>partitionTreeWidth := w\<rparr>" "cols Lc = ca"
    by (simp_all add: Lc fb)
  from D obtain rd where
    "computeNormalizedPositions E Lc [] (Some (zoomedElement Lc)) (rootNode (model Lc)) 0
              False None (zoomedNodes Lc, visibleNodes Lc) = Inr rd"
    and L1: "L1 = Lc\<lparr>model := (model Lc)\<lparr>rootNode := fst rd\<rparr>, zoomedNodes := fst (snd rd),
                 visibleNodes := snd (snd rd)\<rparr>"
    by (rule computePositionsRoot_Inr)
  then have np: "computeNormalizedPositions E Lc [] (Some ze) rc 0
              False None (zoomedNodes Lc, visibleNodes Lc) = Inr rd"
    by (simp add: fcc)
  define t1 where "t1 = fst rd"
  have f1: "model L1 = M\<lparr>rootNode := t1\<rparr>" "zoomedElement L1 = ze"
    "layoutSize L1 = sz\<lparr>partitionTreeWidth := w\<rparr>" "cols L1 = ca"
    by (simp_all add: L1 fcc t1_def)
  \<comment> \<open>what the first pass leaves in the tree\<close>
  have s1: "simP t1 rc"
    unfolding t1_def using np by (rule computeNormalizedPositions_simP)
  then have r1: "relBy keyW t1 rc"
    by (rule simP_relBy)
  have r2: "relBy key zc zb" for key :: "draw \<Rightarrow> 'k"
    unfolding zc_def using cw by (intro setColumnWidths_rel [where st' = "snd ra"]) simp
  have pb: "putAt rb ze zb = rb"
    using gb by (rule putAt_getAt)
  have r3: "relBy key rc rb" for key :: "draw \<Rightarrow> 'k"
    using relBy_putAt [OF relBy_refl r2, of key rb ze] by (simp add: rc_def pb)
  have r4: "relBy keyL zb zb'"
    unfolding zb_def by (rule updateTextWidths_rel)
  have p0: "putAt r0 ze zb' = r0"
    using g0 by (rule putAt_getAt)
  have r5: "relBy keyL rb r0"
    using relBy_putAt [OF relBy_refl r4, of r0 ze] by (simp add: rb_def p0)
  have "relBy keyL t1 rc"
    using r1 by (rule relBy_weaken [rotated]) (rule keyW_keyL)
  then have r6: "relBy keyL t1 r0"
    by (blast intro: relBy_trans r3 r5)
  have gc: "getAt rc ze = Some zc"
    unfolding rc_def using gb by (rule getAt_putAt)
  from relBy_getAt [OF r1, of ze] gc obtain z1 where g1: "getAt t1 ze = Some z1"
    and "relBy keyW z1 zc"
    by (cases "getAt t1 ze") simp_all
  then have rz: "relBy keyW z1 zb"
    by (blast intro: relBy_trans r2)
  \<comment> \<open>the second pass: leaf counts and text widths\<close>
  have m': "model L' = M\<lparr>rootNode := t1\<rparr>" and z': "zoomedElement L' = ze"
    and s': "layoutSize L' = sz\<lparr>partitionTreeWidth := w\<rparr>"
    by (simp_all add: m z s f1)
  have "computeLeaves E M r0 = r0"
    unfolding r0_def by (rule computeLeaves_idem)
  with r6 have "computeLeaves E M t1 = t1"
    by (rule computeLeaves_fixed_transfer)
  then have cl1: "computeLeaves E (model L') t1 = t1"
    by (simp add: computeLeaves_model [of "M\<lparr>rootNode := t1\<rparr>" M, simplified] m')
  have "updateTextWidths E sz zb Map.empty = updateTextWidths E sz zb' Map.empty"
    unfolding zb_def by (rule updateTextWidths_idem)
  then have "updateTextWidths E sz zb Map.empty = (zb, snd (updateTextWidths E sz zb' Map.empty))"
    by (simp add: zb_def prod_eq_iff)
  with rz have "updateTextWidths E sz z1 Map.empty = (z1, snd (updateTextWidths E sz zb' Map.empty))"
    by (rule updateTextWidths_fixed_transfer)
  then have tw: "fst (updateTextWidths E (layoutSize L') z1 Map.empty) = z1"
    by (simp add: s' updateTextWidths_size [of "sz\<lparr>partitionTreeWidth := w\<rparr>" sz])
  have p1: "putAt t1 ze z1 = t1"
    using g1 by (rule putAt_getAt)
  have rt: "rootNode (model L') = t1"
    by (simp add: m')
  have A': "updateTextWidthsZoomed E (computeLeavesRoot E L') = Inr L'"
    by (simp add: updateTextWidthsZoomed_def computeLeavesRoot_def rt cl1 z' g1 tw p1
        model_rootNode_same)
  \<comment> \<open>the second pass: columns\<close>
  from rz have iz: "info z1 = info zb" and "keyW (draw z1) = keyW (draw zb)"
    by (simp_all add: relBy_info)
  then have nz: "numLeaves (draw z1) = numLeaves (draw zb)"
    by (simp add: keyW_def keyL_def)
  have "outState (setColumnWidthsFromWidestText (sz\<lparr>partitionTreeWidth := w\<rparr>)
                    (numLeaves (draw zb)) z1 (columnStart (maxDepth M)))
        = outState (setColumnWidthsFromWidestText sz (numLeaves (draw zb)) zb
                    (columnStart (maxDepth M)))"
    unfolding setColumnWidths_size [of "sz\<lparr>partitionTreeWidth := w\<rparr>" sz, simplified]
    using rz by (rule setColumnWidths_outState)
  then have "outState (setColumnWidthsFromWidestText (sz\<lparr>partitionTreeWidth := w\<rparr>)
                    (numLeaves (draw zb)) z1 (columnStart (maxDepth M))) = Inr (snd ra)"
    by (simp add: cw outState_def)
  from outState_Inr [OF this] obtain ra' where
    cw': "setColumnWidthsFromWidestText (sz\<lparr>partitionTreeWidth := w\<rparr>)
            (numLeaves (draw zb)) z1 (columnStart (maxDepth M)) = Inr ra'"
    and sr: "snd ra' = snd ra"
    by blast
  have fc': "finishColumns (sz\<lparr>partitionTreeWidth := w\<rparr>) z1 (snd ra) = Inr c3"
    using fc by (simp add: finishColumns_cong [OF iz, of "sz\<lparr>partitionTreeWidth := w\<rparr>" sz])
  define tc where "tc = putAt t1 ze (fst ra')"
  define Lb' where
    "Lb' = L'\<lparr>model := (model L')\<lparr>rootNode := tc\<rparr>, greatestDepth := snd (snd (snd ra)),
              leafWidthsPx := fst (snd (snd ra)), cols := c3\<rparr>"
  have B': "computeColumnWidths L' = Inr Lb'"
    unfolding computeColumnWidths_alt
    by (simp add: rt z' g1 s' nz m' cw' sr fc' bindE_def Lb'_def tc_def)
  have "relBy keyG (fst ra') z1"
    using cw' by (intro setColumnWidths_rel [where st' = "snd ra'"]) simp
  from relBy_putAt [OF relBy_refl this, of t1 ze] have rg: "relBy keyG tc t1"
    by (simp add: tc_def p1)
  define Lc' where
    "Lc' = Lb'\<lparr>layoutSize := (layoutSize Lb')\<lparr>partitionTreeWidth := w\<rparr>, cols := ca\<rparr>"
  have C': "setColumnLocationsLayout Lb' = Inr Lc'"
    by (simp add: setColumnLocationsLayout_def Lb'_def m' cl bindE_def Lc'_def)
  \<comment> \<open>the second pass: positions\<close>
  have "numLeaves (draw tc) = numLeaves (draw t1)"
    using rg by (rule relBy_keyG_numLeaves)
  moreover from r1 have "keyW (draw t1) = keyW (draw rc)"
    by (simp add: relBy_info)
  ultimately have "numLeaves (draw tc) = numLeaves (draw rc)"
    by (simp add: keyW_def keyL_def)
  then have sc: "sameColumns Lc' Lc"
    by (simp add: sameColumns_def rootLeaves_def Lc'_def Lb'_def fcc s')
  have sp: "simP tc rc"
    using rg s1 by (rule simP_compose)
  have "sameOutcome (relBy keyG)
          (computeNormalizedPositions E Lc' [] (Some ze) tc 0 False None
             (zoomedNodes Lc', visibleNodes Lc'))
          (computeNormalizedPositions E Lc [] (Some ze) rc 0 False None
             (zoomedNodes Lc, visibleNodes Lc))"
    using sp sc by (rule computeNormalizedPositions_rel) simp_all
  from sameOutcome_Inr_right [OF this [unfolded np]] obtain rd' where
    np': "computeNormalizedPositions E Lc' [] (Some ze) tc 0 False None
             (zoomedNodes Lc', visibleNodes Lc') = Inr rd'"
    and rr: "relBy keyG (fst rd') t1"
    unfolding t1_def by blast
  define L2 where
    "L2 = Lc'\<lparr>model := (model Lc')\<lparr>rootNode := fst rd'\<rparr>, zoomedNodes := fst (snd rd'),
              visibleNodes := snd (snd rd')\<rparr>"
  have fc2: "zoomedElement Lc' = ze" "rootNode (model Lc') = tc"
    by (simp_all add: Lc'_def Lb'_def z')
  have D': "computePositionsRoot E Lc' = Inr L2"
    by (simp add: computePositionsRoot_def fc2 np' bindE_def L2_def case_prod_unfold)
  have "layoutPass E L' = Inr L2"
    by (simp add: layoutPass_def A' B' C' D' bindE_def)
  moreover have "geometry L2 = geometry L1"
    using relBy_keyG_fields [OF rr]
    by (simp add: geometry_def L2_def Lc'_def f1)
  ultimately show ?thesis
    by blast
qed

theorem second_pass_same_geometry_witness:
  "case layoutPass sampleExternals (sampleLayout collapsedTree []) of
     Inl e \<Rightarrow> False
   | Inr L1 \<Rightarrow>
       (case layoutPass sampleExternals L1 of
          Inl e \<Rightarrow> False
        | Inr L2 \<Rightarrow> geometry L2 = geometry L1)"
proof -
  have "case layoutPass sampleExternals (sampleLayout collapsedTree []) of
          Inl e \<Rightarrow> False | Inr L1 \<Rightarrow> True"
    by code_simp
  then obtain L1 where p: "layoutPass sampleExternals (sampleLayout collapsedTree []) = Inr L1"
    by (auto split: sum.splits)
  from second_pass_same_geometry [OF p refl refl refl] obtain L2 where
    "layoutPass sampleExternals L1 = Inr L2" "geometry L2 = geometry L1"
    by blast
  with p show ?thesis
    by simp
qed

section \<open>Properties of the bounds\<close>

lemma fits_Fin:
  assumes "fits (Fin W) c"
  obtains l w where "location c = Fin l" "width c = Fin w" "0 \<le> l" "0 \<le> w" "l + w \<le> W"
  using assms by (cases "location c"; cases "width c") (simp_all add: fits_def)

lemma lookup_tl: "0 < d \<Longrightarrow> lookup xs d = Some c \<Longrightarrow> c \<in> set (tl xs)"
  by (cases xs; cases d) (auto simp: lookup_def split: if_splits)

lemma columnsFit_lookup:
  assumes "columnsFit L" and "0 < d" and "lookup (cols L) d = Some c"
  obtains W l w where "partitionTreeWidth (layoutSize L) = Fin W" "0 < W"
    "location c = Fin l" "width c = Fin w" "0 \<le> l" "0 \<le> w" "l + w \<le> W"
proof -
  from assms(1) obtain W where p: "partitionTreeWidth (layoutSize L) = Fin W" and W: "0 < W"
    by (cases "partitionTreeWidth (layoutSize L)") (simp_all add: columnsFit_def)
  from assms have "fits (Fin W) c"
    by (auto simp: columnsFit_def p list_all_iff dest: lookup_tl)
  then obtain l w where "location c = Fin l" "width c = Fin w" "0 \<le> l" "0 \<le> w" "l + w \<le> W"
    by (rule fits_Fin)
  with p W show ?thesis
    by (rule that)
qed

lemma column_position:
  assumes "columnsFit L" and "0 < d" and "lookup (cols L) d = Some c"
  obtains xv wv where "jdiv (location c) (partitionTreeWidth (layoutSize L)) = Fin xv"
    "jdiv (width c) (partitionTreeWidth (layoutSize L)) = Fin wv"
    "0 \<le> xv" "xv \<le> 1" "0 \<le> wv" "xv + wv \<le> 1"
proof -
  from assms obtain W l w where p: "partitionTreeWidth (layoutSize L) = Fin W" and W: "0 < W"
    and c: "location c = Fin l" "width c = Fin w" and l: "0 \<le> l" "0 \<le> w" "l + w \<le> W"
    by (rule columnsFit_lookup)
  from W l have "(l + w) / W \<le> 1"
    by simp
  then have "l / W + w / W \<le> 1"
    by (simp only: add_divide_distrib)
  moreover from W l have "0 \<le> l / W" "0 \<le> w / W" "l / W \<le> 1"
    by simp_all
  moreover from W have "jdiv (location c) (partitionTreeWidth (layoutSize L)) = Fin (l / W)"
    "jdiv (width c) (partitionTreeWidth (layoutSize L)) = Fin (w / W)"
    by (simp_all add: p c)
  ultimately show ?thesis
    using that by blast
qed

lemma rows_in_range:
  assumes "a + b \<le> T" and "0 < T"
  obtains yv hv where "jdiv (ofNat a) (ofNat T) = Fin yv" "jdiv (ofNat b) (ofNat T) = Fin hv"
    "0 \<le> yv" "yv \<le> 1" "yv + hv \<le> 1"
proof -
  from assms have "real (a + b) / real T \<le> 1"
    by simp
  then have "real a / real T + real b / real T \<le> 1"
    by (simp only: of_nat_add add_divide_distrib)
  moreover from assms have "0 \<le> real a / real T" "real a / real T \<le> 1"
    by simp_all
  moreover from assms have "jdiv (ofNat a) (ofNat T) = Fin (real a / real T)"
    "jdiv (ofNat b) (ofNat T) = Fin (real b / real T)"
    by (simp_all add: ofNat_def)
  ultimately show ?thesis
    using that by blast
qed

lemma placeNode_bounds:
  assumes pl: "placeNode E L anc n leafCounter work = Inr dm"
    and fit: "columnsFit L" and T: "0 < rootLeaves L" and eps: "1 / 1000000 \<le> eps"
    and anc: "\<forall>a \<in> set anc. yInRange a"
    and self: "work = None \<Longrightarrow> 0 < depth (info n) \<and> leafCounter + numLeaves (draw n) \<le> rootLeaves L"
    and other: "\<And>e. work = Some e \<Longrightarrow> empFits L leafCounter e"
  shows "inBounds eps dm"
    and "work = None \<Longrightarrow> isVisible E n \<Longrightarrow>
         \<exists>c. lookup (cols L) (depth (info n)) = Some c \<and>
             dimX dm = jdiv (location c) (partitionTreeWidth (layoutSize L))"
proof -
  from eps have e0: "0 \<le> eps"
    by simp
  show "inBounds eps dm"
  proof (cases "isVisible E n")
    case False
    with pl obtain k pc c where "lookup anc k = Some pc"
      and c: "lookup (cols L) (depth (info pc) + 1) = Some c"
      and dm: "dm = \<lparr>dimX = jdiv (location c) (partitionTreeWidth (layoutSize L)),
                     dimY = dimY (dims (draw pc)), dimWidth = sentinel, dimHeight = sentinel\<rparr>"
      by (auto simp: placeNode_def split: option.splits)
    then have "pc \<in> set anc"
      by (auto simp: lookup_def split: if_splits)
    with anc have y: "jle (Fin 0) (dimY (dims (draw pc)))" "jle (dimY (dims (draw pc))) (Fin 1)"
      by (auto simp: yInRange_def)
    then obtain yv where yv: "dimY (dims (draw pc)) = Fin yv" "0 \<le> yv" "yv \<le> 1"
      by (cases "dimY (dims (draw pc))") simp_all
    have "0 < depth (info pc) + 1"
      by simp
    with fit obtain xv wv where "jdiv (location c) (partitionTreeWidth (layoutSize L)) = Fin xv"
      "0 \<le> xv" "xv \<le> 1"
      using c by (rule column_position)
    then show ?thesis
      using yv eps by (simp add: dm inBounds_def sentinel_def)
  next
    case True
    define e where "e = (case work of None \<Rightarrow> n | Some a \<Rightarrow> a)"
    have r: "leafCounter + numLeaves (draw e) \<le> rootLeaves L" and d: "0 < depth (info e)"
      using self other by (cases work; simp add: e_def empFits_def)+
    from pl True obtain c where c: "lookup (cols L) (depth (info e)) = Some c"
      and dm0: "dm = \<lparr>dimX = jdiv (location c) (partitionTreeWidth (layoutSize L)),
                     dimY = jdiv (ofNat leafCounter) (ofNat (rootLeaves L)),
                     dimWidth =
                       (if hasChildren n \<and> \<not> minimized (draw n) \<and> \<not> filtered (draw n)
                        then jdiv (width c) (partitionTreeWidth (layoutSize L))
                        else jsub (Fin 1)
                          (case work of None \<Rightarrow> jdiv (location c) (partitionTreeWidth (layoutSize L))
                           | Some a \<Rightarrow> dimX (dims (draw a)))),
                     dimHeight = jdiv (ofNat (numLeaves (draw e))) (ofNat (rootLeaves L))\<rparr>"
      by (cases work) (auto simp: placeNode_def Let_def e_def split: option.splits)
    have "(case work of None \<Rightarrow> jdiv (location c) (partitionTreeWidth (layoutSize L))
           | Some a \<Rightarrow> dimX (dims (draw a))) = jdiv (location c) (partitionTreeWidth (layoutSize L))"
      using other c by (cases work) (auto simp: e_def empFits_def)
    with dm0 have
      dm: "dm = \<lparr>dimX = jdiv (location c) (partitionTreeWidth (layoutSize L)),
                     dimY = jdiv (ofNat leafCounter) (ofNat (rootLeaves L)),
                     dimWidth =
                       (if hasChildren n \<and> \<not> minimized (draw n) \<and> \<not> filtered (draw n)
                        then jdiv (width c) (partitionTreeWidth (layoutSize L))
                        else jsub (Fin 1) (jdiv (location c) (partitionTreeWidth (layoutSize L)))),
                     dimHeight = jdiv (ofNat (numLeaves (draw e))) (ofNat (rootLeaves L))\<rparr>"
      by simp
    from fit d c obtain xv wv where x: "jdiv (location c) (partitionTreeWidth (layoutSize L)) = Fin xv"
      "jdiv (width c) (partitionTreeWidth (layoutSize L)) = Fin wv"
      "0 \<le> xv" "xv \<le> 1" "0 \<le> wv" "xv + wv \<le> 1"
      by (rule column_position)
    from r T obtain yv hv where y: "jdiv (ofNat leafCounter) (ofNat (rootLeaves L)) = Fin yv"
      "jdiv (ofNat (numLeaves (draw e))) (ofNat (rootLeaves L)) = Fin hv"
      "0 \<le> yv" "yv \<le> 1" "yv + hv \<le> 1"
      by (rule rows_in_range)
    show ?thesis
      using e0 x(3-) y(3-) by (simp add: dm inBounds_def jsub_def x(1,2) y(1,2))
  qed
  show "\<exists>c. lookup (cols L) (depth (info n)) = Some c \<and>
             dimX dm = jdiv (location c) (partitionTreeWidth (layoutSize L))"
    if "work = None" "isVisible E n"
    using pl that by (auto simp: placeNode_def Let_def split: option.splits)
qed

lemma walkLeaves_Cons:
  "walkLeaves (c # cs) = (if skipped c then walkLeaves cs else numLeaves (draw c) + walkLeaves cs)"
  by (simp add: walkLeaves_def leafSum_def)

lemma placed_numLeaves:
  assumes "computeNormalizedPositions E L anc zp n leafCounter isChild emp st = Inr r"
  shows "numLeaves (draw (fst r)) = numLeaves (draw n)"
proof -
  from assms have "relBy keyW (fst r) n"
    by (intro simP_relBy computeNormalizedPositions_simP)
  then have "keyW (draw (fst r)) = keyW (draw n)"
    by (simp add: relBy_info)
  then show ?thesis
    by (simp add: keyW_def keyL_def)
qed

lemma positionChildren_bounds:
  assumes el: "\<forall>c \<in> set cs. \<forall>anc zp leafCounter ic emp st r.
             computeNormalizedPositions E L anc zp c leafCounter ic emp st = Inr r \<longrightarrow>
             (\<forall>a \<in> set anc. yInRange a) \<longrightarrow>
             list_all (\<lambda>m. 0 < depth (info m)) (walked c) \<longrightarrow>
             (emp = None \<longrightarrow> counted E zp ic c \<and> leafCounter + numLeaves (draw c) \<le> rootLeaves L) \<longrightarrow>
             (\<forall>e. emp = Some e \<longrightarrow> empFits L leafCounter e) \<longrightarrow>
             list_all (\<lambda>m. inBounds eps (dims (draw m))) (walked (fst r))"
    and run: "positionChildren E L anc zp k cs leafCounter ic emp st = Inr rs"
    and anc: "\<forall>a \<in> set anc. yInRange a"
    and dep: "\<forall>c \<in> set cs. \<not> skipped c \<longrightarrow> list_all (\<lambda>m. 0 < depth (info m)) (walked c)"
    and cnt: "emp = None \<longrightarrow> countedEach E zp k ic cs \<and> leafCounter + walkLeaves cs \<le> rootLeaves L"
    and em: "\<forall>e. emp = Some e \<longrightarrow> empFits L leafCounter e"
  shows "\<forall>c' \<in> set (fst rs). \<not> skipped c' \<longrightarrow>
           list_all (\<lambda>m. inBounds eps (dims (draw m))) (walked c')"
  using el run dep cnt em
proof (induction cs arbitrary: k leafCounter st rs)
  case Nil
  then show ?case by auto
next
  case (Cons c cs)
  note run = Cons.prems(2) and dep = Cons.prems(3) and cnt = Cons.prems(4) and em = Cons.prems(5)
  have el': "\<forall>c \<in> set cs. \<forall>anc zp leafCounter ic emp st r.
             computeNormalizedPositions E L anc zp c leafCounter ic emp st = Inr r \<longrightarrow>
             (\<forall>a \<in> set anc. yInRange a) \<longrightarrow>
             list_all (\<lambda>m. 0 < depth (info m)) (walked c) \<longrightarrow>
             (emp = None \<longrightarrow> counted E zp ic c \<and> leafCounter + numLeaves (draw c) \<le> rootLeaves L) \<longrightarrow>
             (\<forall>e. emp = Some e \<longrightarrow> empFits L leafCounter e) \<longrightarrow>
             list_all (\<lambda>m. inBounds eps (dims (draw m))) (walked (fst r))"
  proof (rule ballI)
    fix x
    assume "x \<in> set cs"
    then have "x \<in> set (c # cs)"
      by simp
    with Cons.prems(1) show "\<forall>anc zp leafCounter ic emp st r.
             computeNormalizedPositions E L anc zp x leafCounter ic emp st = Inr r \<longrightarrow>
             (\<forall>a \<in> set anc. yInRange a) \<longrightarrow>
             list_all (\<lambda>m. 0 < depth (info m)) (walked x) \<longrightarrow>
             (emp = None \<longrightarrow> counted E zp ic x \<and> leafCounter + numLeaves (draw x) \<le> rootLeaves L) \<longrightarrow>
             (\<forall>e. emp = Some e \<longrightarrow> empFits L leafCounter e) \<longrightarrow>
             list_all (\<lambda>m. inBounds eps (dims (draw m))) (walked (fst r))"
      by (rule bspec)
  qed
  have dep': "\<forall>c \<in> set cs. \<not> skipped c \<longrightarrow> list_all (\<lambda>m. 0 < depth (info m)) (walked c)"
    using dep by simp
  show ?case
  proof (cases "skipped c")
    case True
    with run obtain rs' where
      t: "positionChildren E L anc zp (Suc k) cs leafCounter ic emp st = Inr rs'"
      and rs: "fst rs = c # fst rs'"
      unfolding positionChildren_Cons by (auto dest!: bindE_Inr)
    from cnt True have
      "emp = None \<longrightarrow> countedEach E zp (Suc k) ic cs \<and> leafCounter + walkLeaves cs \<le> rootLeaves L"
      by (simp add: walkLeaves_Cons)
    from Cons.IH [OF el' t dep' this em] True show ?thesis
      by (simp add: rs)
  next
    case False
    define lc where
      "lc r1 = (if emp = None then leafCounter + numLeaves (draw (fst r1)) else leafCounter)"
      for r1 :: "node \<times> nodeLists"
    from run False obtain r1 rs' where
      h: "computeNormalizedPositions E L anc (childPath zp k) c leafCounter ic emp st = Inr r1"
      and t: "positionChildren E L anc zp (Suc k) cs (lc r1) ic emp (snd r1) = Inr rs'"
      and rs: "fst rs = fst r1 # fst rs'"
      unfolding positionChildren_Cons lc_def by (auto dest!: bindE_Inr)
    have nl: "numLeaves (draw (fst r1)) = numLeaves (draw c)"
      using h by (rule placed_numLeaves)
    from cnt False have
      c1: "emp = None \<longrightarrow> counted E (childPath zp k) ic c \<and>
             leafCounter + numLeaves (draw c) \<le> rootLeaves L"
      and c2: "emp = None \<longrightarrow> countedEach E zp (Suc k) ic cs \<and> lc r1 + walkLeaves cs \<le> rootLeaves L"
      by (auto simp: walkLeaves_Cons lc_def nl)
    from dep False have d1: "list_all (\<lambda>m. 0 < depth (info m)) (walked c)"
      by simp
    have "c \<in> set (c # cs)"
      by simp
    from bspec [OF Cons.prems(1) this] h anc d1 c1 em
    have hd: "list_all (\<lambda>m. inBounds eps (dims (draw m))) (walked (fst r1))"
      by blast
    from em have "\<forall>e. emp = Some e \<longrightarrow> empFits L (lc r1) e"
      by (simp add: lc_def)
    from Cons.IH [OF el' t dep' c2 this] hd show ?thesis
      by (simp add: rs)
  qed
qed

lemma walked_Node:
  "walked (Node i d t p cs) = Node i d t p cs # concat (map walked (filter (\<lambda>c. \<not> skipped c) cs))"
  by simp

lemma computeNormalizedPositions_bounds:
  assumes fit: "columnsFit L" and T: "0 < rootLeaves L" and eps: "1 / 1000000 \<le> eps"
  shows "computeNormalizedPositions E L anc zp n leafCounter ic emp st = Inr r \<Longrightarrow>
         \<forall>a \<in> set anc. yInRange a \<Longrightarrow>
         list_all (\<lambda>m. 0 < depth (info m)) (walked n) \<Longrightarrow>
         emp = None \<longrightarrow> counted E zp ic n \<and> leafCounter + numLeaves (draw n) \<le> rootLeaves L \<Longrightarrow>
         \<forall>e. emp = Some e \<longrightarrow> empFits L leafCounter e \<Longrightarrow>
         list_all (\<lambda>m. inBounds eps (dims (draw m))) (walked (fst r))"
proof (induction n arbitrary: anc zp leafCounter ic emp st r)
  case (Node i d t p cs)
  note run = Node.prems(1) and anc = Node.prems(2) and dep = Node.prems(3)
    and cnt = Node.prems(4) and em = Node.prems(5)
  let ?n = "Node i d t p cs"
  define leaf where "leaf = becomesLeaf E zp ic emp ?n"
  define work where "work = (if leaf then None else emp)"
  have le: "emp = None" if leaf
    using that by (simp add: leaf_def becomesLeaf_def entersView_def)
  have wn: "emp = None" if "work = None"
    using that le by (cases leaf) (simp_all add: work_def)
  from run obtain dm where
    pl: "placeNode E L anc (Node i (preserveDims d) t p cs) leafCounter work = Inr dm"
    and k: "(if cs \<noteq> []
          then bindE (positionChildren E L (Node i ((preserveDims d)\<lparr>dims := dm\<rparr>) t p cs # anc) zp 0 cs
                       leafCounter (childOfZoomed zp ic)
                       (if leaf then Some (Node i ((preserveDims d)\<lparr>dims := dm\<rparr>) t p cs) else emp)
                       (listsAfter E zp ic emp ?n st))
                 (\<lambda>r. Inr (Node i ((preserveDims d)\<lparr>dims := dm\<rparr>) t p (fst r), snd r))
          else Inr (Node i ((preserveDims d)\<lparr>dims := dm\<rparr>) t p cs,
                    listsAfter E zp ic emp ?n st)) = Inr r"
    unfolding computeNormalizedPositions_step leaf_def [symmetric] work_def [symmetric]
    by (blast dest: bindE_Inr)
  let ?n' = "Node i ((preserveDims d)\<lparr>dims := dm\<rparr>) t p cs"
  from dep have d0: "0 < depth i"
    by simp
  have self: "0 < depth (info (Node i (preserveDims d) t p cs)) \<and>
              leafCounter + numLeaves (draw (Node i (preserveDims d) t p cs)) \<le> rootLeaves L"
    if "work = None"
    using wn [OF that] cnt d0 by (simp add: preserveDims_def)
  have other: "empFits L leafCounter e" if "work = Some e" for e
    using that em by (cases leaf) (simp_all add: work_def)
  from pl fit T eps anc self other have b: "inBounds eps dm"
    by (rule placeNode_bounds(1))
  then have y: "yInRange ?n'"
    by (simp add: inBounds_def yInRange_def)
  show ?case
  proof (cases "cs = []")
    case True
    with k have "fst r = ?n'"
      by auto
    with True b show ?thesis
      by simp
  next
    case False
    define emp' where "emp' = (if leaf then Some ?n' else emp)"
    from k False obtain rs where
      t: "positionChildren E L (?n' # anc) zp 0 cs leafCounter (childOfZoomed zp ic) emp'
            (listsAfter E zp ic emp ?n st) = Inr rs"
      and r: "fst r = Node i ((preserveDims d)\<lparr>dims := dm\<rparr>) t p (fst rs)"
      unfolding emp'_def by (auto dest!: bindE_Inr)
    have el: "\<forall>c \<in> set cs. \<forall>anc zp leafCounter ic emp st r.
             computeNormalizedPositions E L anc zp c leafCounter ic emp st = Inr r \<longrightarrow>
             (\<forall>a \<in> set anc. yInRange a) \<longrightarrow>
             list_all (\<lambda>m. 0 < depth (info m)) (walked c) \<longrightarrow>
             (emp = None \<longrightarrow> counted E zp ic c \<and> leafCounter + numLeaves (draw c) \<le> rootLeaves L) \<longrightarrow>
             (\<forall>e. emp = Some e \<longrightarrow> empFits L leafCounter e) \<longrightarrow>
             list_all (\<lambda>m. inBounds eps (dims (draw m))) (walked (fst r))"
      using Node.IH by blast
    have anc': "\<forall>a \<in> set (?n' # anc). yInRange a"
      using y anc by simp
    have dep': "\<forall>c \<in> set cs. \<not> skipped c \<longrightarrow> list_all (\<lambda>m. 0 < depth (info m)) (walked c)"
      using dep by (simp add: list_all_iff)
    have cnt': "emp' = None \<longrightarrow>
                countedEach E zp 0 (childOfZoomed zp ic) cs \<and> leafCounter + walkLeaves cs \<le> rootLeaves L"
    proof
      assume "emp' = None"
      then have nl: "\<not> leaf" and e: "emp = None"
        by (simp_all add: emp'_def split: if_splits)
      with cnt have "counted E zp ic ?n" "leafCounter + numLeaves d \<le> rootLeaves L"
        by simp_all
      with nl e show "countedEach E zp 0 (childOfZoomed zp ic) cs \<and>
                      leafCounter + walkLeaves cs \<le> rootLeaves L"
        by (simp add: leaf_def)
    qed
    have em': "\<forall>e. emp' = Some e \<longrightarrow> empFits L leafCounter e"
    proof (cases leaf)
      case True
      then have w: "work = None"
        by (simp add: work_def)
      from True have "isVisible E (Node i (preserveDims d) t p cs)"
        by (simp add: leaf_def becomesLeaf_def entersView_def)
      with placeNode_bounds(2) [OF pl fit T eps anc self other w]
      obtain c where "lookup (cols L) (depth i) = Some c"
        "dimX dm = jdiv (location c) (partitionTreeWidth (layoutSize L))"
        by auto
      with self [OF w] True show ?thesis
        by (simp add: emp'_def empFits_def preserveDims_def)
    next
      case False
      with em show ?thesis
        by (simp add: emp'_def)
    qed
    from positionChildren_bounds [OF el t anc' dep' cnt' em'] b show ?thesis
      by (auto simp: r list_all_iff)
  qed
qed

text \<open>
  Where the leaf counts are consistent the bounds hold. Let \<open>_computeNormalizedPositions\<close> run
  from the root of a layout in which the root has a positive \<open>numLeaves\<close>, every column from
  depth \<open>1\<close> on has a non-negative location and width and ends within the tree width, which
  is positive and finite, every node the traversal meets has a depth of at least \<open>1\<close>, and at
  every node reached with no earliest minimized parent, which does not become one itself, the
  \<open>numLeaves\<close> of the children the loop descends into sum to at most the \<open>numLeaves\<close> of the
  node. Then every node the traversal assigns dims to has \<open>0 \<le> x \<le> 1\<close>, \<open>0 \<le> y \<le> 1\<close>,
  \<open>x + width \<le> 1 + eps\<close> and \<open>y + height \<le> 1 + eps\<close>, for every \<open>eps\<close> of at least the sentinel
  \<open>1e-6\<close>.
\<close>

lemma computed_dims_in_bounds:
  assumes run: "computePositionsRoot E L = Inr L'"
    and fit: "columnsFit L" and T: "0 < rootLeaves L"
    and dep: "list_all (\<lambda>m. 0 < depth (info m)) (walked (rootNode (model L)))"
    and cnt: "counted E (Some (zoomedElement L)) False (rootNode (model L))"
    and eps: "1 / 1000000 \<le> eps"
  shows "list_all (\<lambda>m. inBounds eps (dims (draw m))) (walked (rootNode (model L')))"
proof -
  from run obtain r where
    np: "computeNormalizedPositions E L [] (Some (zoomedElement L)) (rootNode (model L)) 0
              False None (zoomedNodes L, visibleNodes L) = Inr r"
    and L': "L' = L\<lparr>model := (model L)\<lparr>rootNode := fst r\<rparr>, zoomedNodes := fst (snd r),
                 visibleNodes := snd (snd r)\<rparr>"
    by (rule computePositionsRoot_Inr)
  have "list_all (\<lambda>m. inBounds eps (dims (draw m))) (walked (fst r))"
    using fit T eps np
  proof (rule computeNormalizedPositions_bounds)
    show "\<forall>a \<in> set []. yInRange a"
      by simp
    show "list_all (\<lambda>m. 0 < depth (info m)) (walked (rootNode (model L)))"
      by (rule dep)
    show "None = None \<longrightarrow>
          counted E (Some (zoomedElement L)) False (rootNode (model L)) \<and>
          0 + numLeaves (draw (rootNode (model L))) \<le> rootLeaves L"
      using cnt by (simp add: rootLeaves_def)
    show "\<forall>e. None = Some e \<longrightarrow> empFits L 0 e"
      by simp
  qed
  then show ?thesis
    by (simp add: L')
qed

lemma computed_dims_in_bounds_sample:
  "columnsFit countedLayout \<and> 0 < rootLeaves countedLayout \<and>
   list_all (\<lambda>m. 0 < depth (info m)) (walked (rootNode (model countedLayout))) \<and>
   counted sampleExternals (Some (zoomedElement countedLayout)) False
     (rootNode (model countedLayout)) \<and>
   (case computePositionsRoot sampleExternals countedLayout of
      Inl e \<Rightarrow> False
    | Inr L' \<Rightarrow>
        list_all (\<lambda>m. inBounds (1 / 1000000) (dims (draw m))) (walked (rootNode (model L'))))"
proof -
  have fit: "columnsFit countedLayout"
    by code_simp
  have T: "0 < rootLeaves countedLayout"
    by code_simp
  have dep: "list_all (\<lambda>m. 0 < depth (info m)) (walked (rootNode (model countedLayout)))"
    by code_simp
  have cnt: "counted sampleExternals (Some (zoomedElement countedLayout)) False
     (rootNode (model countedLayout))"
    by code_simp
  have "case computePositionsRoot sampleExternals countedLayout of
          Inl e \<Rightarrow> False | Inr L' \<Rightarrow> True"
    by code_simp
  then obtain L' where run: "computePositionsRoot sampleExternals countedLayout = Inr L'"
    by (auto split: sum.splits)
  from computed_dims_in_bounds [OF run fit T dep cnt, of "1 / 1000000"]
  have "list_all (\<lambda>m. inBounds (1 / 1000000) (dims (draw m))) (walked (rootNode (model L')))"
    by simp
  with fit T dep cnt run show ?thesis
    by simp
qed

text \<open>
  C3 fails on the code. In \<open>collapsedTree\<close> the group \<open>B\<close> is collapsed and its two children
  keep the \<open>numLeaves = 1\<close> of an earlier pass, in which \<open>B\<close> was expanded. With the view zoomed
  on the sibling \<open>A\<close>, \<open>B\<close> lies outside the zoomed subtree, where no node becomes the earliest
  minimized parent: the children of \<open>B\<close> are laid out on their own, and the loop adds their
  counts to the leaf counter. The second child \<open>b2\<close> gets \<open>y = 1\<close> and \<open>height = 1/2\<close>, so that
  \<open>y + height = 3/2\<close>, while the row of \<open>B\<close> itself is \<open>y = 1/2\<close>, \<open>height = 1/2\<close>. With the view
  zoomed on the root the same children are laid out on \<open>B\<close>, as the comment of the function
  says of a minimized parent: they get the row of \<open>B\<close> and stay within the bounds.
\<close>

theorem children_of_minimized_outside_zoom_out_of_bounds:
  "(case layoutPass sampleExternals (sampleLayout collapsedTree [0]) of
      Inl e \<Rightarrow> False
    | Inr L \<Rightarrow>
        (case (getAt (rootNode (model L)) [1], getAt (rootNode (model L)) [1, 1]) of
           (Some B, Some b) \<Rightarrow>
             absPathName (info B) = ''B'' \<and> minimized (draw B) \<and>
             dimY (dims (draw B)) = Fin (1 / 2) \<and> dimHeight (dims (draw B)) = Fin (1 / 2) \<and>
             absPathName (info b) = ''B.b2'' \<and>
             b \<in> set (walked (rootNode (model L))) \<and>
             dims (draw b) = \<lparr>dimX = Fin 1, dimY = Fin 1, dimWidth = Fin 0, dimHeight = Fin (1 / 2)\<rparr> \<and>
             jadd (dimY (dims (draw b))) (dimHeight (dims (draw b))) = Fin (3 / 2) \<and>
             \<not> jle (jadd (dimY (dims (draw b))) (dimHeight (dims (draw b)))) (Fin (1 + 1 / 1000000)) \<and>
             \<not> inBounds (1 / 1000000) (dims (draw b))
         | _ \<Rightarrow> False)) \<and>
   (case layoutPass sampleExternals (sampleLayout collapsedTree []) of
      Inl e \<Rightarrow> False
    | Inr L \<Rightarrow>
        (case (getAt (rootNode (model L)) [1], getAt (rootNode (model L)) [1, 1]) of
           (Some B, Some b) \<Rightarrow>
             absPathName (info B) = ''B'' \<and> minimized (draw B) \<and>
             absPathName (info b) = ''B.b2'' \<and>
             b \<in> set (walked (rootNode (model L))) \<and>
             dimY (dims (draw b)) = dimY (dims (draw B)) \<and>
             dimHeight (dims (draw b)) = dimHeight (dims (draw B)) \<and>
             dimY (dims (draw b)) = Fin (1 / 2) \<and> dimHeight (dims (draw b)) = Fin (1 / 2) \<and>
             inBounds (1 / 1000000) (dims (draw b))
         | _ \<Rightarrow> False))"
  by code_simp

section \<open>Leaf counts that are consistent for the positions\<close>

lemma uncounted_Node:
  "uncounted (Node i d t p cs) = (numLeaves d = 0 \<and> (\<forall>c \<in> set cs. uncounted c))"
  by (auto simp: uncounted_def list_all_iff)

lemma uncounted_numLeaves: "uncounted c \<Longrightarrow> numLeaves (draw c) = 0"
  by (cases c) (simp add: uncounted_Node)

lemma walkLeaves_uncounted: "\<forall>c \<in> set cs. uncounted c \<Longrightarrow> walkLeaves cs = 0"
  by (induction cs) (simp_all add: walkLeaves_Cons uncounted_numLeaves, simp add: walkLeaves_def leafSum_def)

lemma walkLeaves_le: "walkLeaves cs \<le> leafSum cs"
proof (induction cs)
  case Nil
  show ?case by (simp add: walkLeaves_def)
next
  case (Cons c cs)
  have "leafSum (c # cs) = numLeaves (draw c) + leafSum cs"
    by (simp add: leafSum_def)
  with Cons show ?case
    by (simp add: walkLeaves_Cons)
qed

lemma countedEach_all:
  "\<forall>c \<in> set cs. \<forall>zp. counted E zp ic c \<Longrightarrow> countedEach E zp k ic cs"
  by (induction cs arbitrary: k) simp_all

lemma uncounted_counted: "uncounted n \<Longrightarrow> counted E zp ic n"
proof (induction n arbitrary: zp ic)
  case (Node i d t p cs)
  from Node.prems have u: "\<forall>c \<in> set cs. uncounted c"
    by (simp add: uncounted_Node)
  with Node.IH have "\<forall>c \<in> set cs. \<forall>zp'. counted E zp' ic' c" for ic'
    by blast
  then have "countedEach E zp 0 (childOfZoomed zp ic) cs"
    by (rule countedEach_all)
  with walkLeaves_uncounted [OF u] show ?case
    by simp
qed

lemma computeLeaves_counted_each:
  assumes "\<forall>c \<in> set cs. \<forall>zp ic. counted E zp ic (computeLeaves E M c)"
  shows "countedEach E zp k ic (map (computeLeaves E M) cs)"
  using assms by (induction cs arbitrary: k) simp_all

text \<open>
  After \<open>_computeLeaves\<close> on a tree that holds no leaf counts of an earlier pass, the leaf
  counts are consistent along the traversal of \<open>_computeNormalizedPositions\<close>, whatever the
  zoomed element.
\<close>

lemma computeLeaves_counted:
  "uncounted n \<Longrightarrow> counted E zp ic (computeLeaves E M n)"
proof (induction n arbitrary: zp ic)
  case (Node i d t p cs)
  from Node.prems have u: "\<forall>c \<in> set cs. uncounted c"
    by (simp add: uncounted_Node)
  then have w: "walkLeaves cs = 0"
    by (rule walkLeaves_uncounted)
  from u have "\<forall>c \<in> set cs. \<forall>zp'. counted E zp' ic' c" for ic'
    by (blast intro: uncounted_counted)
  then have same: "countedEach E zp 0 (childOfZoomed zp ic) cs"
    by (rule countedEach_all)
  from u Node.IH have "\<forall>c \<in> set cs. \<forall>zp ic. counted E zp ic (computeLeaves E M c)"
    by blast
  then have new: "countedEach E zp 0 (childOfZoomed zp ic) (map (computeLeaves E M) cs)"
    by (rule computeLeaves_counted_each)
  have le: "walkLeaves (map (computeLeaves E M) cs)
            \<le> foldl (\<lambda>acc c. acc + numLeaves (draw c)) 0 (map (computeLeaves E M) cs)"
    using walkLeaves_le [of "map (computeLeaves E M) cs"] by (simp add: foldl_leafSum)
  show ?case
    unfolding computeLeaves_step using w same new le by simp
qed

lemma computeLeaves_counted_sample:
  "uncounted hiddenInputTree \<and>
   counted sampleExternals (Some []) False
     (computeLeaves sampleExternals (sampleModel hiddenInputTree) hiddenInputTree)"
  using computeLeaves_counted [of hiddenInputTree sampleExternals "Some []" False
      "sampleModel hiddenInputTree"]
  by (simp add: uncounted_def hiddenInputTree_def mkNode_def freshDraw_def)

section \<open>The row of a minimized node\<close>

lemma isVisible_relBy: "relBy keyW u v \<Longrightarrow> isVisible E u = isVisible E v"
proof -
  assume r: "relBy keyW u v"
  then have "info u = info v" "keyW (draw u) = keyW (draw v)"
    by (simp_all add: relBy_info)
  moreover from relBy_children [OF r] have "(children u = []) = (children v = [])"
    by (auto simp: list_all2_Nil list_all2_Nil2)
  ultimately show ?thesis
    by (simp add: isVisible_def hasChildren_def keyW_def keyL_def)
qed

lemma placed_isVisible:
  assumes "computeNormalizedPositions E L anc zp n leafCounter isChild emp st = Inr r"
  shows "isVisible E (fst r) = isVisible E n"
  using assms by (intro isVisible_relBy simP_relBy computeNormalizedPositions_simP)

lemma placeNode_visible_work:
  assumes "placeNode E L anc n leafCounter (Some e) = Inr dm" and "isVisible E n"
  shows "dimY dm = jdiv (ofNat leafCounter) (ofNat (rootLeaves L)) \<and>
         dimHeight dm = jdiv (ofNat (numLeaves (draw e))) (ofNat (rootLeaves L))"
  using assms by (auto simp: placeNode_def Let_def split: option.splits)

lemma positionChildren_under:
  assumes el: "\<forall>c \<in> set cs. \<forall>anc zp ic st r.
             computeNormalizedPositions E L anc zp c leafCounter ic (Some e) st = Inr r \<longrightarrow>
             snd r = st \<and> list_all P (walked (fst r))"
    and run: "positionChildren E L anc zp k cs leafCounter ic (Some e) st = Inr rs"
  shows "snd rs = st \<and> (\<forall>c' \<in> set (fst rs). \<not> skipped c' \<longrightarrow> list_all P (walked c'))"
  using el run
proof (induction cs arbitrary: k st rs)
  case Nil
  then show ?case by auto
next
  case (Cons c cs)
  have el': "\<forall>c \<in> set cs. \<forall>anc zp ic st r.
             computeNormalizedPositions E L anc zp c leafCounter ic (Some e) st = Inr r \<longrightarrow>
             snd r = st \<and> list_all P (walked (fst r))"
  proof (rule ballI)
    fix x
    assume "x \<in> set cs"
    then have "x \<in> set (c # cs)"
      by simp
    with Cons.prems(1) show "\<forall>anc zp ic st r.
             computeNormalizedPositions E L anc zp x leafCounter ic (Some e) st = Inr r \<longrightarrow>
             snd r = st \<and> list_all P (walked (fst r))"
      by (rule bspec)
  qed
  show ?case
  proof (cases "skipped c")
    case True
    with Cons.prems(2) obtain rs' where
      t: "positionChildren E L anc zp (Suc k) cs leafCounter ic (Some e) st = Inr rs'"
      and rs: "fst rs = c # fst rs'" "snd rs = snd rs'"
      unfolding positionChildren_Cons by (auto dest!: bindE_Inr)
    from Cons.IH [OF el' t] True show ?thesis
      by (simp add: rs)
  next
    case False
    with Cons.prems(2) obtain r1 rs' where
      h: "computeNormalizedPositions E L anc (childPath zp k) c leafCounter ic (Some e) st = Inr r1"
      and t: "positionChildren E L anc zp (Suc k) cs leafCounter ic (Some e) (snd r1) = Inr rs'"
      and rs: "fst rs = fst r1 # fst rs'" "snd rs = snd rs'"
      unfolding positionChildren_Cons by (auto dest!: bindE_Inr)
    have "c \<in> set (c # cs)"
      by simp
    from bspec [OF Cons.prems(1) this] h have hd: "snd r1 = st" "list_all P (walked (fst r1))"
      by blast+
    from Cons.IH [OF el' t] hd show ?thesis
      by (simp add: rs)
  qed
qed

lemma computeNormalizedPositions_under:
  "computeNormalizedPositions E L anc zp n leafCounter ic (Some e) st = Inr r \<Longrightarrow>
   snd r = st \<and>
   list_all (\<lambda>c. isVisible E c \<longrightarrow>
               dimY (dims (draw c)) = jdiv (ofNat leafCounter) (ofNat (rootLeaves L)) \<and>
               dimHeight (dims (draw c)) = jdiv (ofNat (numLeaves (draw e))) (ofNat (rootLeaves L)))
     (walked (fst r))"
proof (induction n arbitrary: anc zp ic st r)
  case (Node i d t p cs)
  let ?P = "\<lambda>c. isVisible E c \<longrightarrow>
               dimY (dims (draw c)) = jdiv (ofNat leafCounter) (ofNat (rootLeaves L)) \<and>
               dimHeight (dims (draw c)) = jdiv (ofNat (numLeaves (draw e))) (ofNat (rootLeaves L))"
  let ?n = "Node i d t p cs"
  have nl: "becomesLeaf E zp ic (Some e) ?n = False"
    by (simp add: becomesLeaf_def entersView_def)
  have ls: "listsAfter E zp ic (Some e) ?n st = st"
    by (simp add: listsAfter_def becomesLeaf_def entersView_def)
  from Node.prems obtain dm where
    pl: "placeNode E L anc (Node i (preserveDims d) t p cs) leafCounter (Some e) = Inr dm"
    and k: "(if cs \<noteq> []
          then bindE (positionChildren E L (Node i ((preserveDims d)\<lparr>dims := dm\<rparr>) t p cs # anc) zp 0 cs
                       leafCounter (childOfZoomed zp ic) (Some e) st)
                 (\<lambda>r. Inr (Node i ((preserveDims d)\<lparr>dims := dm\<rparr>) t p (fst r), snd r))
          else Inr (Node i ((preserveDims d)\<lparr>dims := dm\<rparr>) t p cs, st)) = Inr r"
    unfolding computeNormalizedPositions_step nl ls if_False by (blast dest: bindE_Inr)
  have info: "info (fst r) = i" and dims: "dims (draw (fst r)) = dm"
    using k by (auto dest!: bindE_Inr split: if_splits)
  have hd: "?P (fst r)"
  proof
    assume "isVisible E (fst r)"
    with placed_isVisible [OF Node.prems] have "isVisible E (Node i (preserveDims d) t p cs)"
      by simp
    from placeNode_visible_work [OF pl this] show
      "dimY (dims (draw (fst r))) = jdiv (ofNat leafCounter) (ofNat (rootLeaves L)) \<and>
       dimHeight (dims (draw (fst r))) = jdiv (ofNat (numLeaves (draw e))) (ofNat (rootLeaves L))"
      by (simp add: dims)
  qed
  show ?case
  proof (cases "cs = []")
    case True
    with k have "r = (Node i ((preserveDims d)\<lparr>dims := dm\<rparr>) t p [], st)"
      by auto
    with hd show ?thesis
      by simp
  next
    case False
    with k obtain rs where
      t: "positionChildren E L (Node i ((preserveDims d)\<lparr>dims := dm\<rparr>) t p cs # anc) zp 0 cs
            leafCounter (childOfZoomed zp ic) (Some e) st = Inr rs"
      and r: "r = (Node i ((preserveDims d)\<lparr>dims := dm\<rparr>) t p (fst rs), snd rs)"
      by (auto dest!: bindE_Inr)
    have el: "\<forall>c \<in> set cs. \<forall>anc zp ic st r.
             computeNormalizedPositions E L anc zp c leafCounter ic (Some e) st = Inr r \<longrightarrow>
             snd r = st \<and> list_all ?P (walked (fst r))"
      using Node.IH by blast
    from positionChildren_under [OF el t] hd show ?thesis
      by (auto simp: r list_all_iff)
  qed
qed

lemma bindE_Inr_eq: "bindE (Inr x) f = f x"
  by (simp add: bindE_def)

lemma single_row:
  assumes run: "computeNormalizedPositions E L anc zp m leafCounter ic None st = Inr (m', st')"
    and one: "numLeaves (draw m) = 1" and nh: "\<not> hidden (draw m)"
    and leaf: "becomesLeaf E zp ic None m"
  shows "numLeaves (draw m') = 1 \<and>
         dimY (dims (draw m')) = jdiv (ofNat leafCounter) (ofNat (rootLeaves L)) \<and>
         dimHeight (dims (draw m')) = jdiv (Fin 1) (ofNat (rootLeaves L)) \<and>
         list_all (\<lambda>c. isVisible E c \<longrightarrow>
                     dimY (dims (draw c)) = dimY (dims (draw m')) \<and>
                     dimHeight (dims (draw c)) = dimHeight (dims (draw m')))
           (walked m') \<and>
         st' = (fst st @ [absPathName (info m)], snd st @ [absPathName (info m)])"
proof (cases m)
  case (Node i d t p cs)
  note m = Node
  let ?P = "\<lambda>c. isVisible E c \<longrightarrow>
               dimY (dims (draw c)) = jdiv (ofNat leafCounter) (ofNat (rootLeaves L)) \<and>
               dimHeight (dims (draw c)) = jdiv (Fin 1) (ofNat (rootLeaves L))"
  from leaf have lf: "becomesLeaf E zp ic None (Node i d t p cs) = True"
    and vis: "isVisible E (Node i (preserveDims d) t p cs)"
    by (simp_all add: m becomesLeaf_def entersView_def)
  from leaf nh have ls: "listsAfter E zp ic None (Node i d t p cs) st
                         = (fst st @ [absPathName i], snd st @ [absPathName i])"
    by (simp add: m listsAfter_def becomesLeaf_def)
  from run obtain dm where
    pl: "placeNode E L anc (Node i (preserveDims d) t p cs) leafCounter None = Inr dm"
    and k: "(if cs \<noteq> []
          then bindE (positionChildren E L (Node i ((preserveDims d)\<lparr>dims := dm\<rparr>) t p cs # anc) zp 0 cs
                       leafCounter (childOfZoomed zp ic)
                       (Some (Node i ((preserveDims d)\<lparr>dims := dm\<rparr>) t p cs))
                       (fst st @ [absPathName i], snd st @ [absPathName i]))
                 (\<lambda>r. Inr (Node i ((preserveDims d)\<lparr>dims := dm\<rparr>) t p (fst r), snd r))
          else Inr (Node i ((preserveDims d)\<lparr>dims := dm\<rparr>) t p cs,
                    (fst st @ [absPathName i], snd st @ [absPathName i]))) = Inr (m', st')"
    unfolding m computeNormalizedPositions_step lf ls if_True by (blast dest: bindE_Inr)
  from placeNode_visible_height [OF pl vis] one have
    dm: "dimY dm = jdiv (ofNat leafCounter) (ofNat (rootLeaves L))"
    "dimHeight dm = jdiv (Fin 1) (ofNat (rootLeaves L))"
    by (simp_all add: m preserveDims_def ofNat_def)
  have f1: "ofNat 1 = Fin 1"
    by (simp add: ofNat_def)
  show ?thesis
  proof (cases "cs = []")
    case True
    with k have "m' = Node i ((preserveDims d)\<lparr>dims := dm\<rparr>) t p []"
      and "st' = (fst st @ [absPathName i], snd st @ [absPathName i])"
      by auto
    with dm one show ?thesis
      by (simp add: m preserveDims_def)
  next
    case False
    let ?e = "Node i ((preserveDims d)\<lparr>dims := dm\<rparr>) t p cs"
    from k False obtain rs where
      t: "positionChildren E L (?e # anc) zp 0 cs leafCounter (childOfZoomed zp ic) (Some ?e)
            (fst st @ [absPathName i], snd st @ [absPathName i]) = Inr rs"
      and r: "m' = Node i ((preserveDims d)\<lparr>dims := dm\<rparr>) t p (fst rs)" "st' = snd rs"
      by (auto dest!: bindE_Inr)
    have e1: "numLeaves (draw ?e) = 1"
      using one by (simp add: m preserveDims_def)
    have el: "\<forall>c \<in> set cs. \<forall>anc zp ic st r.
             computeNormalizedPositions E L anc zp c leafCounter ic (Some ?e) st = Inr r \<longrightarrow>
             snd r = st \<and> list_all ?P (walked (fst r))"
      using computeNormalizedPositions_under [where e = ?e and E = E and L = L
          and leafCounter = leafCounter]
      unfolding e1 f1 by blast
    from positionChildren_under [OF el t] dm one show ?thesis
      by (auto simp: r m preserveDims_def list_all_iff)
  qed
qed

text \<open>
  C6, as amended. A node that \<open>_computeLeaves\<close> leaves minimized, not hidden and not
  filtered counts as one leaf, whatever the number of its descendant leaves, and its children
  are left as they were. When \<open>_computeNormalizedPositions\<close> reaches a node with these flags
  and this count inside the zoomed subtree, with no earlier minimized parent, as a visible
  node that is a visible leaf, the node occupies exactly one row: it keeps the count \<open>1\<close>, its
  row starts at the leaf counter and has the normalized height \<open>1 / root.numLeaves\<close>, the
  height of a single leaf; every visible node laid out below it lies on the same row, with the
  same \<open>y\<close> and the same height; the node is the one entry the call adds to the zoomed nodes and
  to the visible nodes; and the loop over its siblings goes on with the leaf counter advanced
  by one.
\<close>

theorem minimized_node_single_row:
  "\<not> hidden (draw (computeLeaves E M n)) \<and> \<not> filtered (draw (computeLeaves E M n)) \<and>
   minimized (draw (computeLeaves E M n)) \<longrightarrow>
     numLeaves (draw (computeLeaves E M n)) = 1 \<and>
     children (computeLeaves E M n) = children n \<and>
     (computeNormalizedPositions E L anc zp m leafCounter ic None st = Inr (m', st') \<and>
      keyL (draw m) = keyL (draw (computeLeaves E M n)) \<and> becomesLeaf E zp ic None m \<longrightarrow>
        numLeaves (draw m') = 1 \<and>
        dimY (dims (draw m')) = jdiv (ofNat leafCounter) (ofNat (rootLeaves L)) \<and>
        dimHeight (dims (draw m')) = jdiv (Fin 1) (ofNat (rootLeaves L)) \<and>
        list_all (\<lambda>c. isVisible E c \<longrightarrow>
                    dimY (dims (draw c)) = dimY (dims (draw m')) \<and>
                    dimHeight (dims (draw c)) = dimHeight (dims (draw m')))
          (walked m') \<and>
        st' = (fst st @ [absPathName (info m)], snd st @ [absPathName (info m)]) \<and>
        (\<forall>zq k cs. zp = childPath zq k \<and> \<not> skipped m \<longrightarrow>
           positionChildren E L anc zq k (m # cs) leafCounter ic None st =
             bindE (positionChildren E L anc zq (Suc k) cs (leafCounter + 1) ic None st')
               (\<lambda>rs. Inr (m' # fst rs, snd rs))))"
proof (intro impI conjI)
  assume a: "\<not> hidden (draw (computeLeaves E M n)) \<and> \<not> filtered (draw (computeLeaves E M n)) \<and>
   minimized (draw (computeLeaves E M n))"
  then show one: "numLeaves (draw (computeLeaves E M n)) = 1"
    by (simp add: computeLeaves_minimized)
  from a computeLeaves_cases [of E M n] show "children (computeLeaves E M n) = children n"
    by simp
  assume b: "computeNormalizedPositions E L anc zp m leafCounter ic None st = Inr (m', st') \<and>
      keyL (draw m) = keyL (draw (computeLeaves E M n)) \<and> becomesLeaf E zp ic None m"
  with a one have m1: "numLeaves (draw m) = 1" and nh: "\<not> hidden (draw m)"
    by (simp_all add: keyL_def flagsOf_def)
  from b have run: "computeNormalizedPositions E L anc zp m leafCounter ic None st = Inr (m', st')"
    and leaf: "becomesLeaf E zp ic None m"
    by simp_all
  note row = single_row [OF run m1 nh leaf]
  from row show "numLeaves (draw m') = 1"
    and "dimY (dims (draw m')) = jdiv (ofNat leafCounter) (ofNat (rootLeaves L))"
    and "dimHeight (dims (draw m')) = jdiv (Fin 1) (ofNat (rootLeaves L))"
    and "list_all (\<lambda>c. isVisible E c \<longrightarrow>
                    dimY (dims (draw c)) = dimY (dims (draw m')) \<and>
                    dimHeight (dims (draw c)) = dimHeight (dims (draw m')))
          (walked m')"
    and "st' = (fst st @ [absPathName (info m)], snd st @ [absPathName (info m)])"
    by blast+
  from row have n1: "numLeaves (draw m') = 1"
    by simp
  show "\<forall>zq k cs. zp = childPath zq k \<and> \<not> skipped m \<longrightarrow>
           positionChildren E L anc zq k (m # cs) leafCounter ic None st =
             bindE (positionChildren E L anc zq (Suc k) cs (leafCounter + 1) ic None st')
               (\<lambda>rs. Inr (m' # fst rs, snd rs))"
  proof (intro allI impI)
    fix zq k cs
    assume "zp = childPath zq k \<and> \<not> skipped m"
    with run n1 show "positionChildren E L anc zq k (m # cs) leafCounter ic None st =
             bindE (positionChildren E L anc zq (Suc k) cs (leafCounter + 1) ic None st')
               (\<lambda>rs. Inr (m' # fst rs, snd rs))"
      unfolding positionChildren_Cons by (simp add: bindE_Inr_eq)
  qed
qed

theorem minimized_node_single_row_witness:
  "minimized (draw (computeLeaves sampleExternals (sampleModel collapsedTree) collapsedGroup)) \<and>
   descendantLeaves collapsedGroup = 2 \<and>
   numLeaves (draw (computeLeaves sampleExternals (sampleModel collapsedTree) collapsedGroup)) = 1 \<and>
   rootLeaves collapsedLayout = 2 \<and>
   becomesLeaf sampleExternals None True None
     (computeLeaves sampleExternals (sampleModel collapsedTree) collapsedGroup) \<and>
   (case computeNormalizedPositions sampleExternals collapsedLayout [] None
           (computeLeaves sampleExternals (sampleModel collapsedTree) collapsedGroup)
           1 True None ([], []) of
      Inl e \<Rightarrow> False
    | Inr (m', st') \<Rightarrow>
        numLeaves (draw m') = 1 \<and>
        dimHeight (dims (draw m')) = Fin (1 / 2) \<and> dimY (dims (draw m')) = Fin (1 / 2) \<and>
        map (\<lambda>c. (absPathName (info c), dimY (dims (draw c)), dimHeight (dims (draw c)))) (walked m')
          = [(''B'', Fin (1 / 2), Fin (1 / 2)), (''B.b1'', Fin (1 / 2), Fin (1 / 2)),
             (''B.b2'', Fin (1 / 2), Fin (1 / 2))] \<and>
        st' = ([''B''], [''B'']))"
proof -
  let ?m = "computeLeaves sampleExternals (sampleModel collapsedTree) collapsedGroup"
  have f: "\<not> hidden (draw ?m) \<and> \<not> filtered (draw ?m) \<and> minimized (draw ?m) \<and>
           becomesLeaf sampleExternals None True None ?m \<and> descendantLeaves collapsedGroup = 2 \<and>
           rootLeaves collapsedLayout = 2 \<and> absPathName (info ?m) = ''B''"
    by code_simp
  have c: "case computeNormalizedPositions sampleExternals collapsedLayout [] None ?m
           1 True None ([], []) of Inl e \<Rightarrow> False
         | Inr r \<Rightarrow> map (\<lambda>c. (absPathName (info c), isVisible sampleExternals c)) (walked (fst r))
              = [(''B'', True), (''B.b1'', True), (''B.b2'', True)]"
    by code_simp
  then obtain m' st' where
    r: "computeNormalizedPositions sampleExternals collapsedLayout [] None ?m 1 True None ([], [])
          = Inr (m', st')"
    and w: "map (\<lambda>c. (absPathName (info c), isVisible sampleExternals c)) (walked m')
              = [(''B'', True), (''B.b1'', True), (''B.b2'', True)]"
    by (auto split: sum.splits)
  from f have A: "\<not> hidden (draw ?m) \<and> \<not> filtered (draw ?m) \<and> minimized (draw ?m)"
    by simp
  from r f have D: "computeNormalizedPositions sampleExternals collapsedLayout [] None ?m 1 True None
          ([], []) = Inr (m', st') \<and>
      keyL (draw ?m) = keyL (draw ?m) \<and> becomesLeaf sampleExternals None True None ?m"
    by simp
  note E = minimized_node_single_row
    [of sampleExternals "sampleModel collapsedTree" collapsedGroup collapsedLayout "[]" None ?m 1
      True "([], [])" m' st', THEN mp, OF A]
  note F = E [THEN conjunct2, THEN conjunct2, THEN mp, OF D]
  note one = E [THEN conjunct1] F [THEN conjunct1]
  note d = F [THEN conjunct2, THEN conjunct1] F [THEN conjunct2, THEN conjunct2, THEN conjunct1]
  note l = F [THEN conjunct2, THEN conjunct2, THEN conjunct2, THEN conjunct1]
  from F [THEN conjunct2, THEN conjunct2, THEN conjunct2, THEN conjunct2, THEN conjunct1] f
  have s: "st' = ([''B''], [''B''])"
    by simp
  from d f have d': "dimY (dims (draw m')) = Fin (1 / 2)" "dimHeight (dims (draw m')) = Fin (1 / 2)"
    by (simp_all add: ofNat_def)
  from w obtain a b c where wl: "walked m' = [a, b, c]"
    and v: "absPathName (info a) = ''B''" "absPathName (info b) = ''B.b1''"
      "absPathName (info c) = ''B.b2''"
      "isVisible sampleExternals a" "isVisible sampleExternals b" "isVisible sampleExternals c"
    by (auto simp: map_eq_Cons_conv)
  from l wl v d' have
    "map (\<lambda>c. (absPathName (info c), dimY (dims (draw c)), dimHeight (dims (draw c)))) (walked m')
          = [(''B'', Fin (1 / 2), Fin (1 / 2)), (''B.b1'', Fin (1 / 2), Fin (1 / 2)),
             (''B.b2'', Fin (1 / 2), Fin (1 / 2))]"
    by simp
  with f one d' s r show ?thesis
    by simp
qed

text \<open>
  C6 as stated fails. After a pass over \<open>collapsedTree\<close> the collapsed group \<open>B\<close>, with
  \<open>N = 2\<close> descendant leaves, has the height \<open>1/2\<close>, which is \<open>1 / root.numLeaves\<close>; it is
  neither \<open>N\<close> over the leaf count of the root nor \<open>N\<close> over the number of all leaves of the
  tree.
\<close>

theorem minimized_node_height_counterexample:
  "case layoutPass sampleExternals (sampleLayout collapsedTree []) of
     Inl e \<Rightarrow> False
   | Inr L \<Rightarrow>
       (case getAt (rootNode (model L)) [1] of
          None \<Rightarrow> False
        | Some b \<Rightarrow>
            minimized (draw b) \<and> descendantLeaves b = 2 \<and> rootLeaves L = 2 \<and>
            descendantLeaves (rootNode (model L)) = 3 \<and>
            dimHeight (dims (draw b)) = Fin (1 / 2) \<and>
            dimHeight (dims (draw b)) \<noteq> jdiv (ofNat (descendantLeaves b)) (ofNat (rootLeaves L)) \<and>
            dimHeight (dims (draw b)) \<noteq>
              jdiv (ofNat (descendantLeaves b)) (ofNat (descendantLeaves (rootNode (model L)))))"
  by code_simp

section \<open>The range of the horizontal scale\<close>

lemma positionChildren_nth:
  "positionChildren E L anc zp k0 cs leafCounter ic emp st = Inr rs \<Longrightarrow> j < length cs \<Longrightarrow>
   \<not> skipped (cs ! j) \<Longrightarrow>
   \<exists>lc st1 r1. computeNormalizedPositions E L anc (childPath zp (k0 + j)) (cs ! j) lc ic emp st1
                  = Inr r1 \<and> fst rs ! j = fst r1"
proof (induction cs arbitrary: k0 leafCounter st rs j)
  case Nil
  then show ?case by simp
next
  case (Cons c cs)
  show ?case
  proof (cases j)
    case 0
    with Cons.prems have
      "bindE (computeNormalizedPositions E L anc (childPath zp k0) c leafCounter ic emp st)
         (\<lambda>r. bindE (positionChildren E L anc zp (Suc k0) cs
                         (if emp = None then leafCounter + numLeaves (draw (fst r)) else leafCounter)
                         ic emp (snd r))
                   (\<lambda>rs. Inr (fst r # fst rs, snd rs))) = Inr rs"
      unfolding positionChildren_Cons by simp
    from bindE_Inr [OF this] obtain r1 where
      h: "computeNormalizedPositions E L anc (childPath zp k0) c leafCounter ic emp st = Inr r1"
      and "bindE (positionChildren E L anc zp (Suc k0) cs
                 (if emp = None then leafCounter + numLeaves (draw (fst r1)) else leafCounter)
                 ic emp (snd r1))
           (\<lambda>rs. Inr (fst r1 # fst rs, snd rs)) = Inr rs"
      by auto
    from bindE_Inr [OF this(2)] obtain rs' where "fst rs = fst r1 # fst rs'"
      by auto
    note h this
    with 0 show ?thesis
      by (intro exI [of _ leafCounter] exI [of _ st] exI [of _ r1]) simp
  next
    case (Suc j')
    have "\<exists>lc' st' rs' x. positionChildren E L anc zp (Suc k0) cs lc' ic emp st' = Inr rs' \<and>
            fst rs = x # fst rs'"
    proof (cases "skipped c")
      case True
      with Cons.prems(1) have
        "bindE (positionChildren E L anc zp (Suc k0) cs leafCounter ic emp st)
           (\<lambda>rs. Inr (c # fst rs, snd rs)) = Inr rs"
        unfolding positionChildren_Cons by simp
      from bindE_Inr [OF this] obtain rt where
        "positionChildren E L anc zp (Suc k0) cs leafCounter ic emp st = Inr rt"
        "fst rs = c # fst rt"
        by auto
      then show ?thesis
        by blast
    next
      case False
      with Cons.prems(1) have
        "bindE (computeNormalizedPositions E L anc (childPath zp k0) c leafCounter ic emp st)
           (\<lambda>r. bindE (positionChildren E L anc zp (Suc k0) cs
                           (if emp = None then leafCounter + numLeaves (draw (fst r)) else leafCounter)
                           ic emp (snd r))
                     (\<lambda>rs. Inr (fst r # fst rs, snd rs))) = Inr rs"
        unfolding positionChildren_Cons by simp
      from bindE_Inr [OF this] obtain r1 where
        "bindE (positionChildren E L anc zp (Suc k0) cs
                 (if emp = None then leafCounter + numLeaves (draw (fst r1)) else leafCounter)
                 ic emp (snd r1))
           (\<lambda>rs. Inr (fst r1 # fst rs, snd rs)) = Inr rs"
        by auto
      from bindE_Inr [OF this] obtain rt where
        "positionChildren E L anc zp (Suc k0) cs
           (if emp = None then leafCounter + numLeaves (draw (fst r1)) else leafCounter)
           ic emp (snd r1) = Inr rt"
        "fst rs = fst r1 # fst rt"
        by auto
      then show ?thesis
        by blast
    qed
    then obtain lc' st' rs' x where
      t: "positionChildren E L anc zp (Suc k0) cs lc' ic emp st' = Inr rs'"
      and rs: "fst rs = x # fst rs'"
      by blast
    from Cons.prems Suc have "j' < length cs" "\<not> skipped (cs ! j')"
      by simp_all
    from Cons.IH [OF t this] obtain lc st1 r1 where
      "computeNormalizedPositions E L anc (childPath zp (Suc k0 + j')) (cs ! j') lc ic emp st1
         = Inr r1" "fst rs' ! j' = fst r1"
      by blast
    with rs Suc show ?thesis
      by (intro exI [of _ lc] exI [of _ st1] exI [of _ r1]) simp
  qed
qed

lemma positionChildren_same_shape:
  assumes "positionChildren E L anc zp k cs leafCounter ic emp st = Inr rs"
  shows "length (fst rs) = length cs"
    and "j < length cs \<Longrightarrow> skipped (fst rs ! j) = skipped (cs ! j)"
proof -
  have "\<forall>c \<in> set cs. \<forall>anc zp leafCounter isChild emp st r.
             computeNormalizedPositions E L anc zp c leafCounter isChild emp st = Inr r
             \<longrightarrow> simP (fst r) c"
    by (blast intro: computeNormalizedPositions_simP)
  from positionChildren_simPs [OF this assms] have s: "simPs (fst rs) cs" .
  then show l: "length (fst rs) = length cs"
    by (simp add: simPs_nth)
  show "skipped (fst rs ! j) = skipped (cs ! j)" if "j < length cs"
  proof -
    from s that l have
      "if skipped (fst rs ! j) then relBy keyG (fst rs ! j) (cs ! j) else simP (fst rs ! j) (cs ! j)"
      by (simp add: simPs_nth)
    then have "relBy keyW (fst rs ! j) (cs ! j)"
      by (auto intro: simP_relBy relBy_weaken [rotated] keyG_keyW split: if_splits)
    then show ?thesis
      by (rule skipped_relBy)
  qed
qed

lemma zoomed_x:
  "computeNormalizedPositions E L anc (Some path) n leafCounter False None st = Inr r \<Longrightarrow>
   pathWalked (fst r) path \<Longrightarrow> getAt (fst r) path = Some z \<Longrightarrow> isVisible E z \<Longrightarrow>
   \<exists>c. lookup (cols L) (depth (info z)) = Some c \<and>
       dimX (dims (draw z)) = jdiv (location c) (partitionTreeWidth (layoutSize L))"
proof (induction path arbitrary: n anc leafCounter st r)
  case Nil
  from Nil.prems(3) have z: "z = fst r"
    by simp
  from Nil.prems(1) have
    run: "computeNormalizedPositions E L anc (Some []) n leafCounter False None st = Inr (z, snd r)"
    by (simp add: z)
  let ?m = "Node (info n) (preserveDims (draw n)) (textOpacity n) (prevTextOpacity n) (children n)"
  from computeNormalizedPositions_dims [OF run] have
    pl: "placeNode E L anc ?m leafCounter None = Inr (dims (draw z))" and i: "info z = info n"
    by auto
  from placed_isVisible [OF Nil.prems(1)] Nil.prems(4) have "isVisible E n"
    by (simp add: z)
  then have "isVisible E ?m"
    by (cases n) simp
  from placeNode_visible_x [OF pl this] i show ?case
    by simp
next
  case (Cons k ks)
  obtain i d t p cs where n: "n = Node i d t p cs"
    by (cases n)
  have nl: "becomesLeaf E (Some (k # ks)) False None (Node i d t p cs) = False"
    by (simp add: becomesLeaf_def entersView_def childOfZoomed_def)
  have cz: "childOfZoomed (Some (k # ks)) False = False"
    by (simp add: childOfZoomed_def)
  from Cons.prems(1) obtain dm where
    kk: "(if cs \<noteq> []
          then bindE (positionChildren E L (Node i ((preserveDims d)\<lparr>dims := dm\<rparr>) t p cs # anc)
                       (Some (k # ks)) 0 cs leafCounter False None
                       (listsAfter E (Some (k # ks)) False None (Node i d t p cs) st))
                 (\<lambda>r. Inr (Node i ((preserveDims d)\<lparr>dims := dm\<rparr>) t p (fst r), snd r))
          else Inr (Node i ((preserveDims d)\<lparr>dims := dm\<rparr>) t p cs,
                    listsAfter E (Some (k # ks)) False None (Node i d t p cs) st)) = Inr r"
    unfolding n computeNormalizedPositions_step nl cz if_False by (blast dest: bindE_Inr)
  have ne: "cs \<noteq> []"
  proof
    assume "cs = []"
    with kk have "children (fst r) = []"
      by auto
    with Cons.prems(3) show False
      by (simp add: lookup_def)
  qed
  with kk obtain rs where
    t: "positionChildren E L (Node i ((preserveDims d)\<lparr>dims := dm\<rparr>) t p cs # anc)
          (Some (k # ks)) 0 cs leafCounter False None
          (listsAfter E (Some (k # ks)) False None (Node i d t p cs) st) = Inr rs"
    and r: "fst r = Node i ((preserveDims d)\<lparr>dims := dm\<rparr>) t p (fst rs)"
    by (auto dest!: bindE_Inr)
  from Cons.prems(2,3) r obtain c' where c': "lookup (fst rs) k = Some c'"
    and ns: "\<not> skipped c'" and pw: "pathWalked c' ks" and g: "getAt c' ks = Some z"
    by (auto split: option.splits)
  from c' have kl: "k < length (fst rs)" and ck: "c' = fst rs ! k"
    by (auto simp: lookup_def split: if_splits)
  from positionChildren_same_shape [OF t] kl ns ck have k2: "k < length cs" "\<not> skipped (cs ! k)"
    by simp_all
  from positionChildren_nth [OF t k2] ck obtain lc st1 r1 where
    "computeNormalizedPositions E L (Node i ((preserveDims d)\<lparr>dims := dm\<rparr>) t p cs # anc)
       (Some ks) (cs ! k) lc False None st1 = Inr r1" "c' = fst r1"
    by auto
  with Cons.IH pw g Cons.prems(4) show ?case
    by blast
qed

lemma setColumnWidthsEach_greatest:
  assumes "\<forall>n \<in> set ns. \<forall>st r. setColumnWidthsFromWidestText sz zl n st = Inr r \<longrightarrow>
             snd (snd st) \<le> snd (snd (snd r))"
    and "setColumnWidthsEach sz zl ns st = Inr rs"
  shows "snd (snd st) \<le> snd (snd (snd rs))"
  using assms
proof (induction ns arbitrary: st rs)
  case Nil
  then show ?case by auto
next
  case (Cons n ns)
  from bindE_Inr [OF Cons.prems(2) [unfolded setColumnWidthsEach_Cons]] obtain r1 where
    h: "setColumnWidthsFromWidestText sz zl n st = Inr r1"
    and k: "bindE (setColumnWidthsEach sz zl ns (snd r1)) (\<lambda>rs. Inr (fst r1 # fst rs, snd rs)) = Inr rs"
    by auto
  from bindE_Inr [OF k] obtain rt where t: "setColumnWidthsEach sz zl ns (snd r1) = Inr rt"
    and e: "snd rs = snd rt"
    by auto
  have "n \<in> set (n # ns)"
    by simp
  from bspec [OF Cons.prems(1) this] h have a: "snd (snd st) \<le> snd (snd (snd r1))"
    by blast
  have "\<forall>n \<in> set ns. \<forall>st r. setColumnWidthsFromWidestText sz zl n st = Inr r \<longrightarrow>
             snd (snd st) \<le> snd (snd (snd r))"
  proof (rule ballI)
    fix x
    assume "x \<in> set ns"
    then have "x \<in> set (n # ns)"
      by simp
    with Cons.prems(1) show "\<forall>st r. setColumnWidthsFromWidestText sz zl x st = Inr r \<longrightarrow>
             snd (snd st) \<le> snd (snd (snd r))"
      by (rule bspec)
  qed
  from Cons.IH [OF this t] a e show ?case
    by simp
qed

lemma setColumnWidths_greatest:
  "setColumnWidthsFromWidestText sz zl n st = Inr r \<Longrightarrow>
   snd (snd st) \<le> snd (snd (snd r)) \<and> (\<not> hidden (draw n) \<longrightarrow> depth (info n) \<le> snd (snd (snd r)))"
proof (induction n arbitrary: st r)
  case (Node i d t p cs)
  obtain colArr leafArr gd where st: "st = (colArr, leafArr, gd)"
    by (cases st) auto
  note run = Node.prems [unfolded st setColumnWidths_step]
  show ?case
  proof (cases "hidden d")
    case True
    with run show ?thesis
      by (auto simp: st)
  next
    case nh: False
    show ?thesis
    proof (cases "cs \<noteq> [] \<and> \<not> minimized d")
      case True
      with run nh obtain c where
        k: "bindE (setColumnWidthsEach sz zl cs
                    (colArr[depth i := c\<lparr>width := mathMax (width c) (labelWidth sz zl d)\<rparr>],
                     leafArr, max gd (depth i)))
              (\<lambda>r. Inr (Node i d (Some (labelOpacity sz zl d))
                       (Some (case t of Some v \<Rightarrow> v | None \<Rightarrow> Fin 0)) (fst r), snd r)) = Inr r"
        by (auto split: option.splits)
      from bindE_Inr [OF k] obtain rs where
        e: "setColumnWidthsEach sz zl cs
              (colArr[depth i := c\<lparr>width := mathMax (width c) (labelWidth sz zl d)\<rparr>],
               leafArr, max gd (depth i)) = Inr rs"
        and r: "snd r = snd rs"
        by auto
      have "\<forall>n \<in> set cs. \<forall>st r. setColumnWidthsFromWidestText sz zl n st = Inr r \<longrightarrow>
             snd (snd st) \<le> snd (snd (snd r))"
        using Node.IH by blast
      from setColumnWidthsEach_greatest [OF this e] r show ?thesis
        by (simp add: st)
    next
      case False
      with run nh show ?thesis
        by (auto simp: st split: if_splits)
    qed
  qed
qed

lemma finite_width:
  assumes "jle (Fin 0) w \<and> jlt w PosInf"
  obtains v where "w = Fin v" "0 \<le> v"
  using assms by (cases w) simp_all

lemma foldl_widths:
  "list_all (\<lambda>c. jle (Fin 0) (width c) \<and> jlt (width c) PosInf) xs \<Longrightarrow>
   \<exists>s. foldl jadd (Fin a) (map width xs) = Fin (a + s) \<and> 0 \<le> s \<and>
       (\<forall>c \<in> set xs. \<forall>v. width c = Fin v \<longrightarrow> v \<le> s)"
proof (induction xs arbitrary: a)
  case Nil
  then show ?case by simp
next
  case (Cons x xs)
  from Cons.prems have "jle (Fin 0) (width x) \<and> jlt (width x) PosInf"
    by simp
  then obtain v where v: "width x = Fin v" "0 \<le> v"
    by (rule finite_width)
  from Cons.prems have "list_all (\<lambda>c. jle (Fin 0) (width c) \<and> jlt (width c) PosInf) xs"
    by simp
  from Cons.IH [OF this, of "a + v"] obtain s where
    s: "foldl jadd (Fin (a + v)) (map width xs) = Fin (a + v + s)" "0 \<le> s"
    "\<forall>c \<in> set xs. \<forall>v. width c = Fin v \<longrightarrow> v \<le> s"
    by blast
  show ?case
  proof (intro exI [of _ "v + s"] conjI ballI allI impI)
    show "foldl jadd (Fin a) (map width (x # xs)) = Fin (a + (v + s))"
      using v s by (simp add: add.assoc)
    show "0 \<le> v + s"
      using v s by simp
    fix c u
    assume "c \<in> set (x # xs)" "width c = Fin u"
    then consider "c = x" | "c \<in> set xs"
      by auto
    then show "u \<le> v + s"
    proof cases
      case 1
      with v \<open>width c = Fin u\<close> s(2) show ?thesis
        by simp
    next
      case 2
      with s(3) \<open>width c = Fin u\<close> have "u \<le> s"
        by blast
      with v show ?thesis
        by simp
    qed
  qed
qed

lemma foldl_widths_prefix:
  assumes "list_all (\<lambda>c. jle (Fin 0) (width c) \<and> jlt (width c) PosInf) xs"
  shows "\<exists>s S. foldl jadd (Fin 0) (map width (take n xs)) = Fin s \<and>
           foldl jadd (Fin 0) (map width xs) = Fin S \<and> 0 \<le> s \<and> s \<le> S \<and>
           (\<forall>c \<in> set (take n xs). \<forall>v. width c = Fin v \<longrightarrow> v \<le> s)"
proof -
  from assms have a: "list_all (\<lambda>c. jle (Fin 0) (width c) \<and> jlt (width c) PosInf) (take n xs)"
    and b: "list_all (\<lambda>c. jle (Fin 0) (width c) \<and> jlt (width c) PosInf) (drop n xs)"
    by (auto simp: list_all_iff dest: in_set_takeD in_set_dropD)
  from foldl_widths [OF a, of 0] obtain s where
    s: "foldl jadd (Fin 0) (map width (take n xs)) = Fin s" "0 \<le> s"
    "\<forall>c \<in> set (take n xs). \<forall>v. width c = Fin v \<longrightarrow> v \<le> s"
    by auto
  from foldl_widths [OF b, of s] obtain s2 where
    s2: "foldl jadd (Fin s) (map width (drop n xs)) = Fin (s + s2)" "0 \<le> s2"
    by auto
  have "foldl jadd (Fin 0) (map width xs)
        = foldl jadd (foldl jadd (Fin 0) (map width (take n xs))) (map width (drop n xs))"
    by (simp only: foldl_append [symmetric] map_append [symmetric] append_take_drop_id)
  with s s2 have "foldl jadd (Fin 0) (map width xs) = Fin (s + s2)"
    by simp
  with s s2 show ?thesis
    by (intro exI [of _ s] exI [of _ "s + s2"]) simp
qed

lemma quotient_truthy:
  assumes "0 \<le> v" "v \<le> s" "s \<le> S"
  shows "\<not> truthy (jdiv (Fin s) (Fin S)) \<Longrightarrow> v = 0"
    and "0 < v \<Longrightarrow> truthy (jdiv (Fin s) (Fin S))"
  using assms by (auto split: if_splits)

lemma zoomed_right_of_parent_column:
  assumes p: "layoutPass E L0 = Inr L1"
    and g: "getAt (rootNode (model L1)) (zoomedElement L0) = Some z"
    and pw: "pathWalked (rootNode (model L1)) (zoomedElement L0)"
    and vis: "isVisible E z" and nh: "\<not> hidden (draw z)" and dz: "1 < depth (info z)"
    and ok: "list_all (\<lambda>c. jle (Fin 0) (width c) \<and> jlt (width c) PosInf) (tl (cols L1))"
  shows "\<exists>v s S. parentNodeWidth (layoutSize L1) = Fin v \<and>
           dimX (dims (draw z)) = jdiv (Fin s) (Fin S) \<and> 0 \<le> v \<and> v \<le> s \<and> s \<le> S"
proof -
  define ze where "ze = zoomedElement L0"
  define md where "md = maxDepth (model L0)"
  define d where "d = depth (info z)"
  from p obtain La Lb Lc where A: "updateTextWidthsZoomed E (computeLeavesRoot E L0) = Inr La"
    and B: "computeColumnWidths La = Inr Lb" and C: "setColumnLocationsLayout Lb = Inr Lc"
    and D: "computePositionsRoot E Lc = Inr L1"
    by (rule layoutPass_Inr)
  from A obtain zb' where
    La: "La = (computeLeavesRoot E L0)\<lparr>model := (model (computeLeavesRoot E L0))\<lparr>rootNode :=
                 putAt (rootNode (model (computeLeavesRoot E L0))) (zoomedElement (computeLeavesRoot E L0))
                   (fst (updateTextWidths E (layoutSize (computeLeavesRoot E L0)) zb' Map.empty))\<rparr>\<rparr>"
    by (rule updateTextWidthsZoomed_Inr)
  have fa: "zoomedElement La = ze" "layoutSize La = layoutSize L0" "maxDepth (model La) = md"
    by (simp_all add: La computeLeavesRoot_def ze_def md_def)
  from B obtain zz ra c3 where gz: "getAt (rootNode (model La)) (zoomedElement La) = Some zz"
    and cw: "setColumnWidthsFromWidestText (layoutSize La) (numLeaves (draw zz)) zz
           (columnStart (maxDepth (model La))) = Inr ra"
    and Lb: "Lb = La\<lparr>model := (model La)\<lparr>rootNode :=
                   putAt (rootNode (model La)) (zoomedElement La) (fst ra)\<rparr>,
                 greatestDepth := snd (snd (snd ra)), leafWidthsPx := fst (snd (snd ra)),
                 cols := c3\<rparr>"
    by (rule computeColumnWidths_Inr)
  have fb: "zoomedElement Lb = ze" "layoutSize Lb = layoutSize L0" "maxDepth (model Lb) = md"
    "rootNode (model Lb) = putAt (rootNode (model La)) ze (fst ra)"
    "greatestDepth Lb = snd (snd (snd ra))"
    by (simp_all add: Lb fa)
  from computeColumnWidths_length [OF B] have len: "length (cols Lb) = Suc md"
    by (simp add: fa)
  from computeColumnWidths_parent_width [OF B gz] have
    pz: "greatestDepth Lb \<noteq> depth (info zz) - 1 \<longrightarrow>
           width (cols Lb ! (depth (info zz) - 1)) = parentNodeWidth (layoutSize L0)"
    by (simp add: fa)
  from C obtain w ca where sl: "setColumnLocations (maxDepth (model Lb)) (cols Lb) = Inr (w, ca)"
    and Lc: "Lc = Lb\<lparr>layoutSize := (layoutSize Lb)\<lparr>partitionTreeWidth := w\<rparr>, cols := ca\<rparr>"
    by (rule setColumnLocationsLayout_Inr)
  have "md < length (cols Lb)"
    by (simp add: len)
  from setColumnLocations_result [OF this] sl have
    lca: "length ca = Suc md" and wca: "map width ca = map width (cols Lb)"
    and loc: "\<forall>k. 1 \<le> k \<and> k \<le> md \<longrightarrow> location (ca ! k) = cumWidth ca k"
    and tw: "w = cumWidth ca (Suc md)"
    by (auto simp: fb len)
  have fc: "zoomedElement Lc = ze" "rootNode (model Lc) = putAt (rootNode (model La)) ze (fst ra)"
    "cols Lc = ca" "partitionTreeWidth (layoutSize Lc) = w"
    "parentNodeWidth (layoutSize Lc) = parentNodeWidth (layoutSize L0)"
    by (simp_all add: Lc fb)
  from D obtain rd where
    np: "computeNormalizedPositions E Lc [] (Some (zoomedElement Lc)) (rootNode (model Lc)) 0
              False None (zoomedNodes Lc, visibleNodes Lc) = Inr rd"
    and L1: "L1 = Lc\<lparr>model := (model Lc)\<lparr>rootNode := fst rd\<rparr>, zoomedNodes := fst (snd rd),
                 visibleNodes := snd (snd rd)\<rparr>"
    by (rule computePositionsRoot_Inr)
  have f1: "rootNode (model L1) = fst rd" "cols L1 = ca"
    "parentNodeWidth (layoutSize L1) = parentNodeWidth (layoutSize L0)"
    by (simp_all add: L1 fc)
  from g pw have g': "getAt (fst rd) ze = Some z" and pw': "pathWalked (fst rd) ze"
    by (simp_all add: f1 ze_def)
  from zoomed_x [OF np [unfolded fc] pw' g' vis] obtain c where
    c: "lookup (cols Lc) d = Some c"
    and x: "dimX (dims (draw z)) = jdiv (location c) (partitionTreeWidth (layoutSize Lc))"
    by (auto simp: d_def)
  from c have dl: "d < length ca" and cd: "c = ca ! d"
    by (auto simp: lookup_def fc split: if_splits)
  \<comment> \<open>the zoomed element is the node that the columns were computed from\<close>
  have "relBy keyW (fst rd) (rootNode (model Lc))"
    using np by (intro simP_relBy computeNormalizedPositions_simP)
  from relBy_getAt [OF this, of ze] g' getAt_putAt [OF gz, of "fst ra"]
  have "relBy keyW z (fst ra)"
    by (simp add: fc fa)
  moreover have "relBy keyW (fst ra) zz"
    using cw by (intro setColumnWidths_rel [where st' = "snd ra"]) simp
  ultimately have "relBy keyW z zz"
    by (rule relBy_trans)
  then have "info z = info zz" "keyW (draw z) = keyW (draw zz)"
    by (simp_all add: relBy_info)
  with nh have dzz: "depth (info zz) = d" and nhz: "\<not> hidden (draw zz)"
    by (simp_all add: d_def keyW_def keyL_def flagsOf_def)
  from setColumnWidths_greatest [OF cw] nhz have "d \<le> greatestDepth Lb"
    by (simp add: fb dzz)
  with dz pz have "width (cols Lb ! (d - 1)) = parentNodeWidth (layoutSize L0)"
    by (simp add: dzz d_def)
  moreover from wca dl lca have "width (ca ! (d - 1)) = width (cols Lb ! (d - 1))"
    by (metis length_map less_imp_diff_less nth_map)
  ultimately have pn: "parentNodeWidth (layoutSize L1) = width (ca ! (d - 1))"
    by (simp add: f1)
  \<comment> \<open>the sums of the widths\<close>
  from ok have ok': "list_all (\<lambda>c. jle (Fin 0) (width c) \<and> jlt (width c) PosInf) (tl ca)"
    by (simp add: f1)
  from foldl_widths_prefix [OF this, of "d - 1"] obtain s S where
    s: "foldl jadd (Fin 0) (map width (take (d - 1) (tl ca))) = Fin s"
    and S: "foldl jadd (Fin 0) (map width (tl ca)) = Fin S"
    and le: "0 \<le> s" "s \<le> S"
    and mem: "\<forall>c \<in> set (take (d - 1) (tl ca)). \<forall>v. width c = Fin v \<longrightarrow> v \<le> s"
    by blast
  have t1: "drop 1 ca = tl ca"
    by (simp add: drop_Suc)
  from dz dl lca have "1 \<le> d \<and> d \<le> md"
    by (simp add: d_def)
  with loc cd have "location c = cumWidth ca d"
    by simp
  with s have lc: "location c = Fin s"
    by (simp only: cumWidth_def t1)
  from lca have "take md (tl ca) = tl ca"
    by simp
  with tw S have w: "w = Fin S"
    by (simp add: cumWidth_def drop_Suc)
  from dz dl lca have i: "d - 2 < length (take (d - 1) (tl ca))"
    by (simp add: d_def)
  from dz dl lca have "take (d - 1) (tl ca) ! (d - 2) = ca ! (d - 1)"
    by (simp add: d_def nth_tl) (metis Suc_diff_Suc Suc_1 diff_Suc_1 numeral_2_eq_2 One_nat_def)
  with nth_mem [OF i] have m: "ca ! (d - 1) \<in> set (take (d - 1) (tl ca))"
    by simp
  with ok' have "jle (Fin 0) (width (ca ! (d - 1))) \<and> jlt (width (ca ! (d - 1))) PosInf"
    by (auto simp: list_all_iff dest: in_set_takeD)
  then obtain v where v: "width (ca ! (d - 1)) = Fin v" "0 \<le> v"
    by (rule finite_width)
  with mem m have "v \<le> s"
    by blast
  with v le pn x lc w show ?thesis
    by (intro exI [of _ v] exI [of _ s] exI [of _ S]) (simp add: fc)
qed

text \<open>
  C7. \<open>updateScaleValues\<close> returns for a layout that has its scales, its transit coordinates
  and its zoomed element. Unless \<open>firstRun\<close> is set it first copies the current \<open>x\<close> and \<open>y\<close>
  mappings (and transit coordinates) into the previous ones; on the first run the previous
  ones stay as they are. The new \<open>x\<close> mapping has the domain \<open>[zoomedElement.x, 1]\<close> and the
  range from the parent column width to the tree width, where the code takes the lower bound
  \<open>0\<close> instead when the \<open>x\<close> of the zoomed element is \<open>0\<close> or \<open>NaN\<close>; the new \<open>y\<close> mapping has the
  domain \<open>[y, y + height]\<close> and the range \<open>[0, tree height]\<close>.

  After a layout pass zoomed on a root of depth \<open>1\<close> the \<open>x\<close> of the root is \<open>0\<close> or \<open>NaN\<close>, so
  for the root the lower bound is \<open>0\<close>. After a layout pass zoomed on an element of a depth
  greater than \<open>1\<close>, which the traversal reaches as a visible node that is not hidden, with
  column widths that are finite and not negative, the column of the element lies to the
  right of the parent column, so its \<open>x\<close> is \<open>0\<close> only if the parent column width is \<open>0\<close>: the
  lower bound is the parent column width, and it is not \<open>0\<close> when that width is positive.
\<close>

theorem scale_values_recomputed:
  "(scales L = Some S \<and> transitCoords L = Some C \<and>
      getAt (rootNode (model L)) (zoomedElement L) = Some z \<longrightarrow>
      (\<exists>L' S' C'. updateScaleValues L = Inr L' \<and> scales L' = Some S' \<and>
           transitCoords L' = Some C' \<and> firstRun S' = firstRun S \<and>
           prevScaleX (scalesModel S') =
             (if firstRun S then prevScaleX (scalesModel S) else scaleX (scalesModel S)) \<and>
           prevScaleY (scalesModel S') =
             (if firstRun S then prevScaleY (scalesModel S) else scaleY (scalesModel S)) \<and>
           prevTransit C' =
             (if firstRun S then prevTransit C else Some (transitX C, transitY C)) \<and>
           scaleX (scalesModel S') =
             \<lparr>domainOf = (dimX (dims (draw z)), Fin 1),
              rangeOf = (if truthy (dimX (dims (draw z))) then parentNodeWidth (layoutSize L)
                         else Fin 0, partitionTreeWidth (layoutSize L))\<rparr> \<and>
           scaleY (scalesModel S') =
             \<lparr>domainOf = (dimY (dims (draw z)),
                          jadd (dimY (dims (draw z))) (dimHeight (dims (draw z)))),
              rangeOf = (Fin 0, partitionTreeHeight (layoutSize L))\<rparr>)) \<and>
   (layoutPass E Lin = Inr Lout \<and> zoomedElement Lin = [] \<and>
      depth (info (rootNode (model Lin))) = 1 \<longrightarrow>
      \<not> truthy (dimX (dims (draw (rootNode (model Lout)))))) \<and>
   (layoutPass E Lin = Inr Lout \<and> zoomedElement Lin = [] \<and>
      depth (info (rootNode (model Lin))) = 1 \<and>
      model L = model Lout \<and> zoomedElement L = zoomedElement Lin \<and>
      scales L = Some S \<and> transitCoords L = Some C \<longrightarrow>
      (\<exists>L' S'. updateScaleValues L = Inr L' \<and> scales L' = Some S' \<and>
         fst (rangeOf (scaleX (scalesModel S'))) = Fin 0)) \<and>
   (layoutPass E Lin = Inr Lout \<and>
      model L = model Lout \<and> zoomedElement L = zoomedElement Lin \<and> layoutSize L = layoutSize Lout \<and>
      scales L = Some S \<and> transitCoords L = Some C \<and>
      getAt (rootNode (model L)) (zoomedElement L) = Some z \<and>
      pathWalked (rootNode (model Lout)) (zoomedElement Lin) \<and>
      isVisible E z \<and> \<not> hidden (draw z) \<and> 1 < depth (info z) \<and>
      list_all (\<lambda>c. jle (Fin 0) (width c) \<and> jlt (width c) PosInf) (tl (cols Lout)) \<longrightarrow>
      (\<exists>L' S'. updateScaleValues L = Inr L' \<and> scales L' = Some S' \<and>
         fst (rangeOf (scaleX (scalesModel S'))) = parentNodeWidth (layoutSize L) \<and>
         (jlt (Fin 0) (parentNodeWidth (layoutSize L)) \<longrightarrow>
            fst (rangeOf (scaleX (scalesModel S'))) \<noteq> Fin 0)))"
proof (intro conjI impI)
  assume "scales L = Some S \<and> transitCoords L = Some C \<and>
      getAt (rootNode (model L)) (zoomedElement L) = Some z"
  then show "\<exists>L' S' C'. updateScaleValues L = Inr L' \<and> scales L' = Some S' \<and>
           transitCoords L' = Some C' \<and> firstRun S' = firstRun S \<and>
           prevScaleX (scalesModel S') =
             (if firstRun S then prevScaleX (scalesModel S) else scaleX (scalesModel S)) \<and>
           prevScaleY (scalesModel S') =
             (if firstRun S then prevScaleY (scalesModel S) else scaleY (scalesModel S)) \<and>
           prevTransit C' =
             (if firstRun S then prevTransit C else Some (transitX C, transitY C)) \<and>
           scaleX (scalesModel S') =
             \<lparr>domainOf = (dimX (dims (draw z)), Fin 1),
              rangeOf = (if truthy (dimX (dims (draw z))) then parentNodeWidth (layoutSize L)
                         else Fin 0, partitionTreeWidth (layoutSize L))\<rparr> \<and>
           scaleY (scalesModel S') =
             \<lparr>domainOf = (dimY (dims (draw z)),
                          jadd (dimY (dims (draw z))) (dimHeight (dims (draw z)))),
              rangeOf = (Fin 0, partitionTreeHeight (layoutSize L))\<rparr>"
    using updateScaleValues_result [of L S C z] by blast
next
  assume "layoutPass E Lin = Inr Lout \<and> zoomedElement Lin = [] \<and>
      depth (info (rootNode (model Lin))) = 1"
  then show "\<not> truthy (dimX (dims (draw (rootNode (model Lout)))))"
    using root_x_falsy [of E Lin Lout] by blast
next
  assume a: "layoutPass E Lin = Inr Lout \<and> zoomedElement Lin = [] \<and>
      depth (info (rootNode (model Lin))) = 1 \<and>
      model L = model Lout \<and> zoomedElement L = zoomedElement Lin \<and>
      scales L = Some S \<and> transitCoords L = Some C"
  then have m: "model L = model Lout" and ze: "zoomedElement L = []"
    by simp_all
  from a root_x_falsy [of E Lin Lout] have "\<not> truthy (dimX (dims (draw (rootNode (model Lout)))))"
    by blast
  then have f: "\<not> truthy (dimX (dims (draw (rootNode (model L)))))"
    unfolding m .
  have "getAt (rootNode (model L)) (zoomedElement L) = Some (rootNode (model L))"
    unfolding ze by simp
  with a updateScaleValues_result [of L S C "rootNode (model L)"] obtain L' S' where
    "updateScaleValues L = Inr L'" "scales L' = Some S'"
    "scaleX (scalesModel S') =
       \<lparr>domainOf = (dimX (dims (draw (rootNode (model L)))), Fin 1),
        rangeOf = (if truthy (dimX (dims (draw (rootNode (model L)))))
                   then parentNodeWidth (layoutSize L) else Fin 0,
                   partitionTreeWidth (layoutSize L))\<rparr>"
    by blast
  with f show "\<exists>L' S'. updateScaleValues L = Inr L' \<and> scales L' = Some S' \<and>
         fst (rangeOf (scaleX (scalesModel S'))) = Fin 0"
    by simp
next
  assume a: "layoutPass E Lin = Inr Lout \<and>
      model L = model Lout \<and> zoomedElement L = zoomedElement Lin \<and> layoutSize L = layoutSize Lout \<and>
      scales L = Some S \<and> transitCoords L = Some C \<and>
      getAt (rootNode (model L)) (zoomedElement L) = Some z \<and>
      pathWalked (rootNode (model Lout)) (zoomedElement Lin) \<and>
      isVisible E z \<and> \<not> hidden (draw z) \<and> 1 < depth (info z) \<and>
      list_all (\<lambda>c. jle (Fin 0) (width c) \<and> jlt (width c) PosInf) (tl (cols Lout))"
  then have p: "layoutPass E Lin = Inr Lout" and m: "model L = model Lout"
    and ze: "zoomedElement L = zoomedElement Lin" and sz: "layoutSize L = layoutSize Lout"
    and g0: "getAt (rootNode (model L)) (zoomedElement L) = Some z"
    and pw: "pathWalked (rootNode (model Lout)) (zoomedElement Lin)"
    and vis: "isVisible E z" "\<not> hidden (draw z)" "1 < depth (info z)"
    and ok: "list_all (\<lambda>c. jle (Fin 0) (width c) \<and> jlt (width c) PosInf) (tl (cols Lout))"
    by blast+
  from g0 have g: "getAt (rootNode (model Lout)) (zoomedElement Lin) = Some z"
    unfolding m ze .
  from zoomed_right_of_parent_column [OF p g pw vis ok] obtain v s S0 where
    v: "parentNodeWidth (layoutSize L) = Fin v"
    and x: "dimX (dims (draw z)) = jdiv (Fin s) (Fin S0)" and le: "0 \<le> v" "v \<le> s" "s \<le> S0"
    unfolding sz by blast
  from quotient_truthy [OF le] x have
    t: "\<not> truthy (dimX (dims (draw z))) \<Longrightarrow> v = 0" "0 < v \<Longrightarrow> truthy (dimX (dims (draw z)))"
    by simp_all
  from a updateScaleValues_result [of L S C z] obtain L' S' where
    "updateScaleValues L = Inr L'" "scales L' = Some S'"
    and sx: "scaleX (scalesModel S') =
       \<lparr>domainOf = (dimX (dims (draw z)), Fin 1),
        rangeOf = (if truthy (dimX (dims (draw z))) then parentNodeWidth (layoutSize L) else Fin 0,
                   partitionTreeWidth (layoutSize L))\<rparr>"
    by blast
  moreover from sx t v have "fst (rangeOf (scaleX (scalesModel S'))) = parentNodeWidth (layoutSize L)"
    by auto
  moreover from sx t v have "jlt (Fin 0) (parentNodeWidth (layoutSize L)) \<longrightarrow>
            fst (rangeOf (scaleX (scalesModel S'))) \<noteq> Fin 0"
    by auto
  ultimately show "\<exists>L' S'. updateScaleValues L = Inr L' \<and> scales L' = Some S' \<and>
         fst (rangeOf (scaleX (scalesModel S'))) = parentNodeWidth (layoutSize L) \<and>
         (jlt (Fin 0) (parentNodeWidth (layoutSize L)) \<longrightarrow>
            fst (rangeOf (scaleX (scalesModel S'))) \<noteq> Fin 0)"
    by blast
qed

theorem scale_values_recomputed_witness:
  "(case zoomedOnA of
      Inl e \<Rightarrow> False
    | Inr L \<Rightarrow>
        zoomedElement L = [0] \<and>
        (case updateScaleValues L of
           Inl e \<Rightarrow> False
         | Inr L' \<Rightarrow>
             (case scales L' of
                None \<Rightarrow> False
              | Some S' \<Rightarrow>
                  prevScaleX (scalesModel S') = scaleX sampleScale \<and>
                  prevScaleY (scalesModel S') = scaleY sampleScale \<and>
                  scaleX (scalesModel S') =
                    \<lparr>domainOf = (Fin (5 / 8), Fin 1), rangeOf = (Fin 40, Fin 64)\<rparr> \<and>
                  scaleY (scalesModel S') =
                    \<lparr>domainOf = (Fin 0, Fin (1 / 2)), rangeOf = (Fin 0, Fin 600)\<rparr> \<and>
                  fst (rangeOf (scaleX (scalesModel S'))) = parentNodeWidth (layoutSize L) \<and>
                  fst (rangeOf (scaleX (scalesModel S'))) \<noteq> Fin 0))) \<and>
   (case zoomedOnRoot of
      Inl e \<Rightarrow> False
    | Inr L \<Rightarrow>
        zoomedElement L = [] \<and> parentNodeWidth (layoutSize L) = Fin 40 \<and>
        (case updateScaleValues L of
           Inl e \<Rightarrow> False
         | Inr L' \<Rightarrow>
             (case scales L' of
                None \<Rightarrow> False
              | Some S' \<Rightarrow> fst (rangeOf (scaleX (scalesModel S'))) = Fin 0))) \<and>
   depth (info (rootNode (model (sampleLayout collapsedTree [])))) = 1 \<and>
   (case layoutPass sampleExternals (sampleLayout collapsedTree []) of
      Inl e \<Rightarrow> False
    | Inr L1 \<Rightarrow> dimX (dims (draw (rootNode (model L1)))) = Fin 0)"
proof -
  \<comment> \<open>zoomed on \<open>A\<close>\<close>
  have e: "case zoomedOnA of
      Inl e \<Rightarrow> False
    | Inr L \<Rightarrow>
        scales L = Some \<lparr>scalesModel = sampleScale, firstRun = False\<rparr> \<and>
        transitCoords L \<noteq> None \<and> getAt (rootNode (model L)) (zoomedElement L) \<noteq> None \<and>
        zoomedElement L = [0] \<and>
        dims (draw (the (getAt (rootNode (model L)) (zoomedElement L)))) =
          \<lparr>dimX = Fin (5 / 8), dimY = Fin 0, dimWidth = Fin (3 / 8), dimHeight = Fin (1 / 2)\<rparr> \<and>
        isVisible sampleExternals (the (getAt (rootNode (model L)) (zoomedElement L))) \<and>
        \<not> hidden (draw (the (getAt (rootNode (model L)) (zoomedElement L)))) \<and>
        1 < depth (info (the (getAt (rootNode (model L)) (zoomedElement L)))) \<and>
        layoutSize L = sampleSize\<lparr>partitionTreeWidth := Fin 64\<rparr> \<and>
        (case layoutPass sampleExternals (sampleLayout collapsedTree [0]) of
           Inl e \<Rightarrow> False
         | Inr Lout \<Rightarrow>
             model L = model Lout \<and> layoutSize L = layoutSize Lout \<and>
             pathWalked (rootNode (model Lout)) [0] \<and>
             list_all (\<lambda>c. jle (Fin 0) (width c) \<and> jlt (width c) PosInf) (tl (cols Lout)))"
    by code_simp
  then obtain L C z Lout where l: "zoomedOnA = Inr L"
    and s: "scales L = Some \<lparr>scalesModel = sampleScale, firstRun = False\<rparr>"
    and c: "transitCoords L = Some C"
    and z: "getAt (rootNode (model L)) (zoomedElement L) = Some z"
    and ze: "zoomedElement L = [0]"
    and d: "dims (draw z) =
          \<lparr>dimX = Fin (5 / 8), dimY = Fin 0, dimWidth = Fin (3 / 8), dimHeight = Fin (1 / 2)\<rparr>"
    and v: "isVisible sampleExternals z" "\<not> hidden (draw z)" "1 < depth (info z)"
    and sz: "layoutSize L = sampleSize\<lparr>partitionTreeWidth := Fin 64\<rparr>"
    and p: "layoutPass sampleExternals (sampleLayout collapsedTree [0]) = Inr Lout"
    and m: "model L = model Lout" "layoutSize L = layoutSize Lout"
    and pw: "pathWalked (rootNode (model Lout)) [0]"
    and ok: "list_all (\<lambda>c. jle (Fin 0) (width c) \<and> jlt (width c) PosInf) (tl (cols Lout))"
    by (auto split: sum.splits)
  have zl: "zoomedElement (sampleLayout collapsedTree [0]) = [0]"
    by (simp add: sampleLayout_def constructorFields_def)
  note T = scale_values_recomputed
    [of L "\<lparr>scalesModel = sampleScale, firstRun = False\<rparr>" C z sampleExternals
      "sampleLayout collapsedTree [0]" Lout]
  from T [THEN conjunct1] s c z
  obtain L' S' where u: "updateScaleValues L = Inr L'" and s': "scales L' = Some S'"
    and rest: "prevScaleX (scalesModel S') = scaleX sampleScale"
    "prevScaleY (scalesModel S') = scaleY sampleScale"
    "scaleX (scalesModel S') =
       \<lparr>domainOf = (dimX (dims (draw z)), Fin 1),
        rangeOf = (if truthy (dimX (dims (draw z))) then parentNodeWidth (layoutSize L)
                   else Fin 0, partitionTreeWidth (layoutSize L))\<rparr>"
    "scaleY (scalesModel S') =
       \<lparr>domainOf = (dimY (dims (draw z)),
                    jadd (dimY (dims (draw z))) (dimHeight (dims (draw z)))),
        rangeOf = (Fin 0, partitionTreeHeight (layoutSize L))\<rparr>"
    by auto
  have h: "layoutPass sampleExternals (sampleLayout collapsedTree [0]) = Inr Lout \<and>
      model L = model Lout \<and> zoomedElement L = zoomedElement (sampleLayout collapsedTree [0]) \<and>
      layoutSize L = layoutSize Lout \<and>
      scales L = Some \<lparr>scalesModel = sampleScale, firstRun = False\<rparr> \<and> transitCoords L = Some C \<and>
      getAt (rootNode (model L)) (zoomedElement L) = Some z \<and>
      pathWalked (rootNode (model Lout)) (zoomedElement (sampleLayout collapsedTree [0])) \<and>
      isVisible sampleExternals z \<and> \<not> hidden (draw z) \<and> 1 < depth (info z) \<and>
      list_all (\<lambda>c. jle (Fin 0) (width c) \<and> jlt (width c) PosInf) (tl (cols Lout))"
    unfolding zl using p m ze s c z pw v ok by blast
  from T [THEN conjunct2, THEN conjunct2, THEN conjunct2, THEN mp, OF h] u s'
  have pn: "fst (rangeOf (scaleX (scalesModel S'))) = parentNodeWidth (layoutSize L)"
    by auto
  from rest d sz pn have
    "prevScaleX (scalesModel S') = scaleX sampleScale \<and>
     prevScaleY (scalesModel S') = scaleY sampleScale \<and>
     scaleX (scalesModel S') =
       \<lparr>domainOf = (Fin (5 / 8), Fin 1), rangeOf = (Fin 40, Fin 64)\<rparr> \<and>
     scaleY (scalesModel S') =
       \<lparr>domainOf = (Fin 0, Fin (1 / 2)), rangeOf = (Fin 0, Fin 600)\<rparr> \<and>
     fst (rangeOf (scaleX (scalesModel S'))) = parentNodeWidth (layoutSize L) \<and>
     fst (rangeOf (scaleX (scalesModel S'))) \<noteq> Fin 0"
    by (simp add: sampleSize_def)
  with ze have one: "case zoomedOnA of
      Inl e \<Rightarrow> False
    | Inr L \<Rightarrow>
        zoomedElement L = [0] \<and>
        (case updateScaleValues L of
           Inl e \<Rightarrow> False
         | Inr L' \<Rightarrow>
             (case scales L' of
                None \<Rightarrow> False
              | Some S' \<Rightarrow>
                  prevScaleX (scalesModel S') = scaleX sampleScale \<and>
                  prevScaleY (scalesModel S') = scaleY sampleScale \<and>
                  scaleX (scalesModel S') =
                    \<lparr>domainOf = (Fin (5 / 8), Fin 1), rangeOf = (Fin 40, Fin 64)\<rparr> \<and>
                  scaleY (scalesModel S') =
                    \<lparr>domainOf = (Fin 0, Fin (1 / 2)), rangeOf = (Fin 0, Fin 600)\<rparr> \<and>
                  fst (rangeOf (scaleX (scalesModel S'))) = parentNodeWidth (layoutSize L) \<and>
                  fst (rangeOf (scaleX (scalesModel S'))) \<noteq> Fin 0))"
    unfolding l sum.case u s' option.case by blast
  \<comment> \<open>zoomed on the root\<close>
  have r: "depth (info (rootNode (model (sampleLayout collapsedTree [])))) = 1 \<and>
      zoomedElement (sampleLayout collapsedTree []) = [] \<and>
      (case layoutPass sampleExternals (sampleLayout collapsedTree []) of
         Inl e \<Rightarrow> False
       | Inr L1 \<Rightarrow>
           dimX (dims (draw (rootNode (model L1)))) = Fin 0 \<and>
           (case zoomedOnRoot of
              Inl e \<Rightarrow> False
            | Inr L \<Rightarrow>
                model L = model L1 \<and> zoomedElement L = [] \<and> scales L \<noteq> None \<and>
                transitCoords L \<noteq> None \<and> parentNodeWidth (layoutSize L) = Fin 40))"
    by code_simp
  then obtain L1 Lr Sr Cr where l1: "layoutPass sampleExternals (sampleLayout collapsedTree []) = Inr L1"
    and x1: "dimX (dims (draw (rootNode (model L1)))) = Fin 0"
    and lr: "zoomedOnRoot = Inr Lr" and mr: "model Lr = model L1" and zr: "zoomedElement Lr = []"
    and sr: "scales Lr = Some Sr" and cr: "transitCoords Lr = Some Cr"
    and pr: "parentNodeWidth (layoutSize Lr) = Fin 40"
    by (auto split: sum.splits)
  from r have hr: "layoutPass sampleExternals (sampleLayout collapsedTree []) = Inr L1 \<and>
      zoomedElement (sampleLayout collapsedTree []) = [] \<and>
      depth (info (rootNode (model (sampleLayout collapsedTree [])))) = 1 \<and>
      model Lr = model L1 \<and> zoomedElement Lr = zoomedElement (sampleLayout collapsedTree []) \<and>
      scales Lr = Some Sr \<and> transitCoords Lr = Some Cr"
    using l1 mr zr sr cr by simp
  from scale_values_recomputed
    [of Lr Sr Cr "rootNode (model Lr)" sampleExternals "sampleLayout collapsedTree []" L1,
      THEN conjunct2, THEN conjunct2, THEN conjunct1, THEN mp, OF hr]
  obtain Lr' Sr' where "updateScaleValues Lr = Inr Lr'" "scales Lr' = Some Sr'"
    "fst (rangeOf (scaleX (scalesModel Sr'))) = Fin 0"
    by blast
  with zr pr have two: "case zoomedOnRoot of
      Inl e \<Rightarrow> False
    | Inr L \<Rightarrow>
        zoomedElement L = [] \<and> parentNodeWidth (layoutSize L) = Fin 40 \<and>
        (case updateScaleValues L of
           Inl e \<Rightarrow> False
         | Inr L' \<Rightarrow>
             (case scales L' of
                None \<Rightarrow> False
              | Some S' \<Rightarrow> fst (rangeOf (scaleX (scalesModel S'))) = Fin 0))"
    unfolding lr by simp
  from r l1 x1 have three: "depth (info (rootNode (model (sampleLayout collapsedTree [])))) = 1 \<and>
   (case layoutPass sampleExternals (sampleLayout collapsedTree []) of
      Inl e \<Rightarrow> False
    | Inr L1 \<Rightarrow> dimX (dims (draw (rootNode (model L1)))) = Fin 0)"
    by simp
  from one two three show ?thesis
    by blast
qed

end
